theory Spec2Isabelle
  imports Complex_Main "HOL-Library.Word" "HOL-Library.Stream" "HOL-Library.Sublist"
begin

section \<open>Data\<close>

text \<open>
  A \<^verbatim>\<open>Uint8Array\<close> is a list of 8-bit words. A JavaScript string is a list of UTF-16
  code units. \<open>js\<close> turns an ASCII literal into such a string.
\<close>

type_synonym byte = "8 word"
type_synonym jsstring = "16 word list"

definition js :: "string \<Rightarrow> jsstring" where
  "js s = map (\<lambda>c. of_nat (of_char c)) s"

text \<open>
  A JavaScript number: \<^verbatim>\<open>NaN\<close>, a finite number, \<^verbatim>\<open>Infinity\<close> or \<^verbatim>\<open>-Infinity\<close>. A finite
  number is a rational and the arithmetic on finite numbers is exact; the rounding of
  doubles is left out (the source's additions and subtractions are exact on integers below
  \<open>2^53\<close>).
\<close>

datatype jsnum = NaN | Num rat | PosInf | NegInf

text \<open>
  A response header that is converted with \<^verbatim>\<open>Number(res.headers.get(...))\<close>. \<open>Absent\<close>: the
  header is missing and \<^verbatim>\<open>get\<close> returns \<^verbatim>\<open>null\<close>; \<open>Numeric q\<close>: a header text that
  \<^verbatim>\<open>Number\<close> converts to the finite number \<open>q\<close> (such as \<^verbatim>\<open>"8192"\<close>, \<^verbatim>\<open>"0"\<close>,
  \<^verbatim>\<open>"-5"\<close> or \<^verbatim>\<open>"1.5"\<close>); \<open>PlusInfinity\<close> and \<open>MinusInfinity\<close>: the header texts
  \<^verbatim>\<open>"Infinity"\<close> and \<^verbatim>\<open>"-Infinity"\<close>; \<open>NotNumeric\<close>: a header text that \<^verbatim>\<open>Number\<close>
  converts to \<^verbatim>\<open>NaN\<close>.
\<close>

datatype header = Absent | Numeric rat | PlusInfinity | MinusInfinity | NotNumeric

fun Number :: "header \<Rightarrow> jsnum" where
  "Number Absent = Num 0"
| "Number (Numeric q) = Num q"
| "Number PlusInfinity = PosInf"
| "Number MinusInfinity = NegInf"
| "Number NotNumeric = NaN"

text \<open>\<^verbatim>\<open>!x\<close> on a number: true for 0 and for \<^verbatim>\<open>NaN\<close>.\<close>

fun falsy :: "jsnum \<Rightarrow> bool" where
  "falsy NaN = True"
| "falsy (Num q) = (q = 0)"
| "falsy PosInf = False"
| "falsy NegInf = False"

text \<open>\<^verbatim>\<open>x < y\<close> on numbers: false when an operand is \<^verbatim>\<open>NaN\<close>.\<close>

fun js_less :: "jsnum \<Rightarrow> jsnum \<Rightarrow> bool" where
  "js_less (Num a) (Num b) = (a < b)"
| "js_less (Num a) PosInf = True"
| "js_less NegInf (Num b) = True"
| "js_less NegInf PosInf = True"
| "js_less _ _ = False"

text \<open>\<^verbatim>\<open>a - x\<close> for an integer \<open>a\<close> (a byte count or a length).\<close>

fun minus_from :: "int \<Rightarrow> jsnum \<Rightarrow> jsnum" where
  "minus_from a NaN = NaN"
| "minus_from a (Num q) = Num (of_int a - q)"
| "minus_from a PosInf = NegInf"
| "minus_from a NegInf = PosInf"

text \<open>
  What \<^verbatim>\<open>reader.read()\<close> resolves to on the reader of a response body:
  \<^verbatim>\<open>{ value: chunk, done: false }\<close> (\<open>Chunk\<close>) or \<^verbatim>\<open>{ value: undefined, done: true }\<close>
  (\<open>Done\<close>). The tests \<^verbatim>\<open>done || !value\<close> and \<^verbatim>\<open>!value\<close> of the source hold exactly on
  \<open>Done\<close>: a \<^verbatim>\<open>Uint8Array\<close> is an object and therefore truthy, also when its length is 0.
  The reader is the stream of the results of its successive reads.
\<close>

datatype read_result = Chunk "byte list" | Done

type_synonym reader = "read_result stream"

text \<open>The response: the headers that \<^verbatim>\<open>parseOnce\<close> looks at, and the body.\<close>

record response =
  hdr_icy_metaint :: header
  hdr_icy_name :: "jsstring option"
  hdr_icy_genre :: "jsstring option"
  hdr_icy_url :: "jsstring option"
  hdr_icy_br :: header
  hdr_content_type :: "jsstring option"
  hdr_server :: "jsstring option"
  body :: reader

record parsed =
  title :: "jsstring option"

record IcyMetadata = parsed +
  raw :: jsstring
  name :: "jsstring option"
  genre :: "jsstring option"
  url :: "jsstring option"
  bitrate :: jsnum
  contentType :: "jsstring option"
  server :: "jsstring option"

datatype error = UnsupportedStream | StreamEndedEarly | MetadataReadFailed

fun message :: "error \<Rightarrow> string" where
  "message UnsupportedStream = ''Stream does not support ICY metadata''"
| "message StreamEndedEarly = ''Stream ended before metadata was received''"
| "message MetadataReadFailed = ''Failed to read metadata from stream''"

text \<open>
  The effects on the connection, in the order in which \<^verbatim>\<open>parseOnce\<close> performs them:
  \<^verbatim>\<open>fetch\<close>, \<^verbatim>\<open>res.body.getReader()\<close>, \<^verbatim>\<open>controller.abort()\<close>,
  \<^verbatim>\<open>reader.releaseLock()\<close>.
\<close>

datatype effect = Fetch | GetReader | Abort | ReleaseLock

record outcome =
  result :: "error + IcyMetadata"
  effects :: "effect list"

section \<open>Platform functions\<close>

subsection \<open>Typed arrays\<close>

text \<open>
  \<^verbatim>\<open>slice(start, end)\<close>: an index is converted to an integer (\<^verbatim>\<open>NaN\<close> becomes 0, a
  fraction is truncated towards 0), a negative index counts from the end, and both are
  clamped to the length.
\<close>

definition trunc :: "rat \<Rightarrow> int" where
  "trunc q = (if q < 0 then \<lceil>q\<rceil> else \<lfloor>q\<rfloor>)"

fun rel_index :: "int \<Rightarrow> jsnum \<Rightarrow> int" where
  "rel_index len NaN = 0"
| "rel_index len (Num q) = (if trunc q < 0 then max (len + trunc q) 0 else min (trunc q) len)"
| "rel_index len PosInf = len"
| "rel_index len NegInf = 0"

definition slice :: "'a list \<Rightarrow> jsnum \<Rightarrow> jsnum option \<Rightarrow> 'a list" where
  "slice xs start end =
     (let len = int (length xs);
          s = rel_index len start;
          e = (case end of None \<Rightarrow> len | Some x \<Rightarrow> rel_index len x)
      in take (nat (e - s)) (drop (nat s) xs))"

text \<open>\<^verbatim>\<open>a[0]\<close> is \<^verbatim>\<open>undefined\<close> on an empty array.\<close>

fun index0 :: "'a list \<Rightarrow> 'a option" where
  "index0 [] = None"
| "index0 (x # xs) = Some x"

text \<open>\<^verbatim>\<open>lengthByte * 16\<close>, where \<^verbatim>\<open>undefined * 16\<close> is \<^verbatim>\<open>NaN\<close>.\<close>

fun times16 :: "byte option \<Rightarrow> jsnum" where
  "times16 None = NaN"
| "times16 (Some b) = Num (of_int (uint b * 16))"

subsection \<open>\<^verbatim>\<open>new TextDecoder().decode\<close>\<close>

text \<open>
  The UTF-8 decoder of the Encoding Standard, in replacement mode. Its state is the code
  point under construction, the bytes seen and needed, and the bounds of the next byte.
  A byte outside the bounds yields U+FFFD and is processed again in the initial state; the
  end of the input inside a sequence yields U+FFFD. \<open>b AND 0x1F\<close> is written \<open>b mod 32\<close>
  and \<open>(cp << 6) | (b AND 0x3F)\<close> is written \<open>cp * 64 + b mod 64\<close>.
\<close>

fun utf8_decode :: "nat \<Rightarrow> nat \<Rightarrow> nat \<Rightarrow> nat \<Rightarrow> nat \<Rightarrow> nat list \<Rightarrow> nat list" where
  "utf8_decode cp seen needed lo hi [] = (if needed \<noteq> 0 then [0xFFFD] else [])"
| "utf8_decode cp seen needed lo hi (b # bs) =
     (if needed = 0 then
        (if b \<le> 0x7F then b # utf8_decode 0 0 0 0x80 0xBF bs
         else if 0xC2 \<le> b \<and> b \<le> 0xDF then utf8_decode (b mod 32) 0 1 0x80 0xBF bs
         else if 0xE0 \<le> b \<and> b \<le> 0xEF then
           utf8_decode (b mod 16) 0 2 (if b = 0xE0 then 0xA0 else 0x80)
             (if b = 0xED then 0x9F else 0xBF) bs
         else if 0xF0 \<le> b \<and> b \<le> 0xF4 then
           utf8_decode (b mod 8) 0 3 (if b = 0xF0 then 0x90 else 0x80)
             (if b = 0xF4 then 0x8F else 0xBF) bs
         else 0xFFFD # utf8_decode 0 0 0 0x80 0xBF bs)
      else if \<not> (lo \<le> b \<and> b \<le> hi) then 0xFFFD # utf8_decode 0 0 0 0x80 0xBF (b # bs)
      else if seen + 1 \<noteq> needed then
        utf8_decode (cp * 64 + b mod 64) (seen + 1) needed 0x80 0xBF bs
      else (cp * 64 + b mod 64) # utf8_decode 0 0 0 0x80 0xBF bs)"

text \<open>A leading U+FEFF, the byte order mark, is not part of the output.\<close>

fun strip_bom :: "nat list \<Rightarrow> nat list" where
  "strip_bom [] = []"
| "strip_bom (c # cs) = (if c = 0xFEFF then cs else c # cs)"

text \<open>A code point becomes one UTF-16 code unit, or a surrogate pair from U+10000 on.\<close>

definition utf16 :: "nat \<Rightarrow> jsstring" where
  "utf16 cp =
     (if cp < 0x10000 then [of_nat cp]
      else [of_nat (0xD800 + (cp - 0x10000) div 0x400),
            of_nat (0xDC00 + (cp - 0x10000) mod 0x400)])"

definition TextDecoder_decode :: "byte list \<Rightarrow> jsstring" where
  "TextDecoder_decode bs =
     concat (map utf16 (strip_bom (utf8_decode 0 0 0 0x80 0xBF (map unat bs))))"

subsection \<open>The two regular expressions\<close>

text \<open>
  \<^verbatim>\<open>s.replace(/\0+$/, "")\<close> removes the leftmost match: the match starts at the first
  position from which the string is a non-empty run of U+0000 up to its end.
\<close>

fun replace_trailing_nuls :: "jsstring \<Rightarrow> jsstring" where
  "replace_trailing_nuls [] = []"
| "replace_trailing_nuls (c # cs) =
     (if list_all (\<lambda>x. x = 0) (c # cs) then [] else c # replace_trailing_nuls cs)"

text \<open>
  \<^verbatim>\<open>/StreamTitle='([^']*)'/.exec(s)\<close>. At one start position the expression matches when
  the string continues with \<^verbatim>\<open>StreamTitle='\<close> and a quote follows later; the group is
  the text before that quote (the greedy \<^verbatim>\<open>[^']*\<close> takes all characters up to the next
  quote, and giving some back never puts a quote behind it). \<^verbatim>\<open>exec\<close> tries the start
  positions from left to right.
\<close>

definition quote :: "16 word" where
  "quote = 0x27"

definition StreamTitle_key :: jsstring where
  "StreamTitle_key = js ''StreamTitle='' @ [quote]"

definition match_here :: "jsstring \<Rightarrow> jsstring option" where
  "match_here s =
     (if prefix StreamTitle_key s then
        (let rest = drop (length StreamTitle_key) s
         in if quote \<in> set rest then Some (takeWhile (\<lambda>c. c \<noteq> quote) rest) else None)
      else None)"

fun exec_group1 :: "jsstring \<Rightarrow> jsstring option" where
  "exec_group1 s =
     (case match_here s of
        Some g \<Rightarrow> Some g
      | None \<Rightarrow> (case s of [] \<Rightarrow> None | c # cs \<Rightarrow> exec_group1 cs))"

section \<open>helpers.ts\<close>

definition concat_buf :: "byte list \<Rightarrow> byte list \<Rightarrow> byte list" where
  "concat_buf a b = a @ b"

definition parseMetadata :: "jsstring \<Rightarrow> parsed" where
  "parseMetadata s = \<lparr> title = exec_group1 s \<rparr>"

section \<open>parseOnce\<close>

text \<open>
  The first loop: read until \<open>received\<close> reaches \<open>metaint\<close>, keeping the last chunk. The
  result is the reader after the reads, with the error or the final \<open>received\<close> and
  \<open>leftover\<close>. A loop that reads for ever has the value \<open>None\<close>.
\<close>

partial_function (option) audio_loop ::
  "reader \<Rightarrow> jsnum \<Rightarrow> int \<Rightarrow> byte list \<Rightarrow> (reader \<times> (error + int \<times> byte list)) option"
where
  "audio_loop rd metaint received leftover =
     (if js_less (Num (of_int received)) metaint then
        (case shd rd of
           Done \<Rightarrow> Some (stl rd, Inl StreamEndedEarly)
         | Chunk v \<Rightarrow> audio_loop (stl rd) metaint (received + int (length v)) v)
      else Some (rd, Inr (received, leftover)))"

text \<open>The start of the metadata: the tail of the last chunk, or one more read.\<close>

definition meta_start ::
  "reader \<Rightarrow> jsnum \<Rightarrow> int \<Rightarrow> byte list \<Rightarrow> reader \<times> (error + byte list)"
where
  "meta_start rd metaint received leftover =
     (let overflow = minus_from received metaint
      in if js_less (Num 0) overflow then
           (rd, Inr (slice leftover (minus_from (int (length leftover)) overflow) None))
         else
           (case shd rd of
              Done \<Rightarrow> (stl rd, Inl MetadataReadFailed)
            | Chunk v \<Rightarrow> (stl rd, Inr v)))"

text \<open>The second loop: append chunks until the payload has \<open>metadataLength\<close> bytes.\<close>

partial_function (option) payload_loop ::
  "reader \<Rightarrow> jsnum \<Rightarrow> byte list \<Rightarrow> (reader \<times> byte list) option"
where
  "payload_loop rd metadataLength metadata =
     (if js_less (Num (of_nat (length metadata))) metadataLength then
        (case shd rd of
           Done \<Rightarrow> Some (stl rd, metadata)
         | Chunk v \<Rightarrow> payload_loop (stl rd) metadataLength (concat_buf metadata v))
      else Some (rd, metadata))"

definition raw_of :: "byte list \<Rightarrow> jsnum \<Rightarrow> jsstring" where
  "raw_of metadata metadataLength =
     replace_trailing_nuls (TextDecoder_decode (slice metadata (Num 0) (Some metadataLength)))"

text \<open>The \<^verbatim>\<open>try\<close> block after the first loop, up to the raw string.\<close>

definition after_boundary ::
  "reader \<Rightarrow> jsnum \<Rightarrow> int \<Rightarrow> byte list \<Rightarrow> (error + jsstring) option"
where
  "after_boundary rd metaint received leftover =
     (case meta_start rd metaint received leftover of
        (rd2, Inl e) \<Rightarrow> Some (Inl e)
      | (rd2, Inr metaStart) \<Rightarrow>
          (let metadataLength = times16 (index0 metaStart)
           in case payload_loop rd2 metadataLength (slice metaStart (Num 1) None) of
                None \<Rightarrow> None
              | Some (rd3, metadata) \<Rightarrow> Some (Inr (raw_of metadata metadataLength))))"

definition try_block :: "reader \<Rightarrow> jsnum \<Rightarrow> (error + jsstring) option" where
  "try_block rd metaint =
     (case audio_loop rd metaint 0 [] of
        None \<Rightarrow> None
      | Some (rd1, Inl e) \<Rightarrow> Some (Inl e)
      | Some (rd1, Inr (received, leftover)) \<Rightarrow> after_boundary rd1 metaint received leftover)"

definition make_result :: "response \<Rightarrow> jsstring \<Rightarrow> IcyMetadata" where
  "make_result res r =
     \<lparr> title = title (parseMetadata r),
       raw = r,
       name = hdr_icy_name res,
       genre = hdr_icy_genre res,
       url = hdr_icy_url res,
       bitrate = Number (hdr_icy_br res),
       contentType = hdr_content_type res,
       server = hdr_server res \<rparr>"

text \<open>
  \<^verbatim>\<open>parseOnce\<close>, from the response that \<^verbatim>\<open>fetch\<close> resolved to. The \<^verbatim>\<open>throw\<close> for
  \<^verbatim>\<open>!metaint\<close> is before the \<^verbatim>\<open>try\<close>, so the \<^verbatim>\<open>finally\<close> block does not run for it.
  \<open>None\<close>: the call never returns.
\<close>

definition parseOnce :: "response \<Rightarrow> outcome option" where
  "parseOnce res =
     (let metaint = Number (hdr_icy_metaint res)
      in if falsy metaint then Some \<lparr> result = Inl UnsupportedStream, effects = [Fetch] \<rparr>
         else
           (case try_block (body res) metaint of
              None \<Rightarrow> None
            | Some (Inl e) \<Rightarrow>
                Some \<lparr> result = Inl e, effects = [Fetch, GetReader, Abort, ReleaseLock] \<rparr>
            | Some (Inr r) \<Rightarrow>
                Some \<lparr> result = Inr (make_result res r),
                       effects = [Fetch, GetReader, Abort, ReleaseLock] \<rparr>))"

section \<open>Test inputs and the byte-level reading of the protocol\<close>

text \<open>A reader that delivers the given chunks and then signals the end of the stream.\<close>

definition stream_of :: "byte list list \<Rightarrow> reader" where
  "stream_of cs = map Chunk cs @- sconst Done"

text \<open>A response with the given \<^verbatim>\<open>icy-metaint\<close> header and body, and no other header.\<close>

definition response_of :: "header \<Rightarrow> reader \<Rightarrow> response" where
  "response_of h rd =
     \<lparr> hdr_icy_metaint = h, hdr_icy_name = None, hdr_icy_genre = None, hdr_icy_url = None,
       hdr_icy_br = Absent, hdr_content_type = None, hdr_server = None, body = rd \<rparr>"

text \<open>
  The extraction as the ICY convention describes it on the bytes of the stream, without
  chunks: \<open>n\<close> audio bytes, the length byte, and the payload of 16 times that length (or
  what is there of it).
\<close>

definition icy_block :: "nat \<Rightarrow> byte list \<Rightarrow> error + jsstring" where
  "icy_block n bs =
     (if length bs < n then Inl StreamEndedEarly
      else if length bs = n then Inl MetadataReadFailed
      else Inr (replace_trailing_nuls
                 (TextDecoder_decode (take (16 * unat (bs ! n)) (drop (Suc n) bs)))))"

section \<open>Auxiliary notions\<close>

text \<open>The \<^verbatim>\<open>try\<close> block entered in the middle of the first loop.\<close>

definition try_from :: "reader \<Rightarrow> jsnum \<Rightarrow> int \<Rightarrow> byte list \<Rightarrow> (error + jsstring) option" where
  "try_from rd metaint received leftover =
     (case audio_loop rd metaint received leftover of
        None \<Rightarrow> None
      | Some (rd1, Inl e) \<Rightarrow> Some (Inl e)
      | Some (rd1, Inr (r, l)) \<Rightarrow> after_boundary rd1 metaint r l)"

text \<open>The bytes from position \<open>n\<close> on hold a length byte and its whole payload.\<close>

definition complete_block :: "nat \<Rightarrow> byte list \<Rightarrow> bool" where
  "complete_block n bs \<longleftrightarrow> n < length bs \<and> Suc n + 16 * unat (bs ! n) \<le> length bs"


text \<open>
  A decoder state in which the code point that the sequence will produce is not 0: either
  the bits read so far are not all 0, or the lower bound of the next byte forces a bit.
\<close>

definition decoder_ok :: "nat \<Rightarrow> nat \<Rightarrow> nat \<Rightarrow> nat \<Rightarrow> bool" where
  "decoder_ok cp needed lo hi \<longleftrightarrow>
     needed = 0 \<or> (0 < lo \<and> (0 < cp \<or> 0x80 < lo) \<and> hi \<le> 0xBF)"


section \<open>Evaluation\<close>

lemmas eval_defs = parseOnce_def response_of_def stream_of_def try_block_def after_boundary_def
  audio_loop.simps payload_loop.simps meta_start_def slice_def trunc_def raw_of_def concat_buf_def
  TextDecoder_decode_def utf16_def make_result_def parseMetadata_def match_here_def
  StreamTitle_key_def js_def quote_def Let_def

section \<open>The metadata decoder\<close>

lemma match_here_Some:
  "match_here s = Some t \<longleftrightarrow> (\<exists>post. s = StreamTitle_key @ t @ quote # post \<and> quote \<notin> set t)"
proof
  assume m: "match_here s = Some t"
  then have p: "prefix StreamTitle_key s"
    by (simp add: match_here_def split: if_splits)
  define rest where "rest = drop (length StreamTitle_key) s"
  from p have s: "s = StreamTitle_key @ rest"
    by (auto simp: rest_def prefix_def)
  from m p have q: "quote \<in> set rest" and t: "t = takeWhile (\<lambda>c. c \<noteq> quote) rest"
    by (auto simp: match_here_def Let_def rest_def split: if_splits)
  from q have "dropWhile (\<lambda>c. c \<noteq> quote) rest \<noteq> []"
    by simp
  then obtain d ds where d: "dropWhile (\<lambda>c. c \<noteq> quote) rest = d # ds"
    by (cases "dropWhile (\<lambda>c. c \<noteq> quote) rest") auto
  then have "d = quote"
    using hd_dropWhile [of "\<lambda>c. c \<noteq> quote" rest] by auto
  with d t have "rest = t @ quote # ds"
    using takeWhile_dropWhile_id [of "\<lambda>c. c \<noteq> quote" rest] by simp
  moreover have "quote \<notin> set t"
    using t by (auto dest: set_takeWhileD)
  ultimately show "\<exists>post. s = StreamTitle_key @ t @ quote # post \<and> quote \<notin> set t"
    using s by auto
next
  assume "\<exists>post. s = StreamTitle_key @ t @ quote # post \<and> quote \<notin> set t"
  then obtain post where s: "s = StreamTitle_key @ t @ quote # post" and t: "quote \<notin> set t"
    by auto
  have "takeWhile (\<lambda>c. c \<noteq> quote) (t @ quote # post) = t"
    using t by (auto simp: takeWhile_tail)
  then show "match_here s = Some t"
    by (simp add: match_here_def s)
qed

lemma key_snoc: "\<exists>k. StreamTitle_key = k @ [quote]"
  by (simp add: StreamTitle_key_def)

lemma key_not_Nil: "StreamTitle_key \<noteq> []"
  by (simp add: StreamTitle_key_def)

lemma match_here_None_later:
  assumes "match_here s = None" and "s = c # pre @ StreamTitle_key @ rest"
  shows "\<not> prefix StreamTitle_key s"
proof
  assume p: "prefix StreamTitle_key s"
  obtain k where k: "StreamTitle_key = k @ [quote]"
    using key_snoc by auto
  have len: "length StreamTitle_key \<le> length (c # pre @ k)"
    by (simp add: k)
  have "drop (length StreamTitle_key) s = drop (length StreamTitle_key) (c # pre @ k) @ quote # rest"
    using len by (simp only: assms(2) k append_Cons [symmetric] append_assoc [symmetric] drop_append) simp
  then have "quote \<in> set (drop (length StreamTitle_key) s)"
    by simp
  with p assms(1) show False
    by (simp add: match_here_def Let_def)
qed

lemma exec_group1_Some:
  "exec_group1 s = Some t \<longleftrightarrow>
     (\<exists>pre post. s = pre @ StreamTitle_key @ t @ quote # post \<and> quote \<notin> set t \<and>
        (\<forall>j<length pre. \<not> prefix StreamTitle_key (drop j s)))"
proof (induction s)
  case Nil
  show ?case
    using key_not_Nil by (auto simp: match_here_def)
next
  case (Cons c cs)
  show ?case
  proof (cases "match_here (c # cs)")
    case (Some g)
    then have p: "prefix StreamTitle_key (c # cs)"
      by (simp add: match_here_def split: if_splits)
    have gt: "g = t" if "c # cs = pre @ StreamTitle_key @ t @ quote # post" "quote \<notin> set t"
        "\<forall>j<length pre. \<not> prefix StreamTitle_key (drop j (c # cs))" for pre post
    proof (cases pre)
      case Nil
      with that have "match_here (c # cs) = Some t"
        by (auto simp: match_here_Some)
      with Some show ?thesis by simp
    next
      case (Cons a as)
      with that(3) p show ?thesis by force
    qed
    moreover have "\<exists>pre post. c # cs = pre @ StreamTitle_key @ g @ quote # post \<and> quote \<notin> set g \<and>
        (\<forall>j<length pre. \<not> prefix StreamTitle_key (drop j (c # cs)))"
    proof -
      from Some obtain post where "c # cs = StreamTitle_key @ g @ quote # post" "quote \<notin> set g"
        by (auto simp: match_here_Some)
      then show ?thesis
        by (intro exI [of _ "[]"] exI [of _ post]) simp
    qed
    moreover have "exec_group1 (c # cs) = Some g"
      using Some by simp
    ultimately show ?thesis
      by (metis option.inject)
  next
    case None
    have "(\<exists>pre post. cs = pre @ StreamTitle_key @ t @ quote # post \<and> quote \<notin> set t \<and>
        (\<forall>j<length pre. \<not> prefix StreamTitle_key (drop j cs))) \<longleftrightarrow>
      (\<exists>pre post. c # cs = pre @ StreamTitle_key @ t @ quote # post \<and> quote \<notin> set t \<and>
        (\<forall>j<length pre. \<not> prefix StreamTitle_key (drop j (c # cs))))" (is "?L \<longleftrightarrow> ?R")
    proof
      assume ?L
      then obtain pre post where d: "cs = pre @ StreamTitle_key @ t @ quote # post" "quote \<notin> set t"
        "\<forall>j<length pre. \<not> prefix StreamTitle_key (drop j cs)" by auto
      have n: "\<not> prefix StreamTitle_key (c # cs)"
        using match_here_None_later [OF None] d(1) by simp
      have "\<forall>j<length (c # pre). \<not> prefix StreamTitle_key (drop j (c # cs))"
      proof (intro allI impI)
        fix j assume "j < length (c # pre)"
        then show "\<not> prefix StreamTitle_key (drop j (c # cs))"
          using n d(3) by (cases j) auto
      qed
      with d(1,2) show ?R
        by (intro exI [of _ "c # pre"] exI [of _ post]) simp
    next
      assume ?R
      then obtain pre post where d: "c # cs = pre @ StreamTitle_key @ t @ quote # post" "quote \<notin> set t"
        "\<forall>j<length pre. \<not> prefix StreamTitle_key (drop j (c # cs))" by auto
      have "pre \<noteq> []"
      proof
        assume "pre = []"
        with d have "match_here (c # cs) = Some t"
          by (auto simp: match_here_Some)
        with None show False by simp
      qed
      then obtain pre' where pre: "pre = c # pre'"
        using d(1) by (cases pre) auto
      have "\<forall>j<length pre'. \<not> prefix StreamTitle_key (drop j cs)"
        using d(3) pre by (metis Suc_less_eq drop_Suc_Cons length_Cons) 
      with d(1,2) pre show ?L
        by auto
    qed
    with None Cons.IH show ?thesis
      by simp
  qed
qed

section \<open>The two loops\<close>

lemma js_less_int: "js_less (Num (of_int a)) (Num q) \<longleftrightarrow> a < \<lceil>q\<rceil>"
  by (simp add: less_ceiling_iff)

lemma js_less_nat: "js_less (Num (of_nat a)) (Num q) \<longleftrightarrow> int a < \<lceil>q\<rceil>"
  using js_less_int [of "int a" q] by simp

lemma times16_finite: "times16 x \<noteq> PosInf"
  by (cases x) auto

lemma audio_loop_error:
  assumes "audio_loop rd n received leftover = Some (rd1, r)"
  shows "r \<noteq> Inl UnsupportedStream \<and> r \<noteq> Inl MetadataReadFailed"
proof -
  have "snd y \<noteq> Inl UnsupportedStream \<and> snd y \<noteq> Inl MetadataReadFailed"
    if "audio_loop rd n received leftover = Some y" for y
    by (rule audio_loop.raw_induct [OF _ that]) (auto split: if_splits read_result.splits)
  from this [OF assms] show ?thesis by simp
qed

lemma audio_diverges: "audio_loop (sconst (Chunk [])) (Num 1) 0 [] = None"
proof -
  have "\<not> (shd rd = Chunk [] \<and> stl rd = rd \<and> js_less (Num (of_int received)) n)"
    if "audio_loop rd n received leftover = Some y" for rd n received leftover y
    by (rule audio_loop.raw_induct [OF _ that]) (auto split: if_splits read_result.splits)
  from this [of "sconst (Chunk [])" "Num 1" 0 "[]"] show ?thesis
    by (cases "audio_loop (sconst (Chunk [])) (Num 1) 0 []") auto
qed

lemma audio_diverges_infinite: "audio_loop (sconst (Chunk [1])) PosInf 0 [] = None"
proof -
  have "\<not> (shd rd = Chunk [1] \<and> stl rd = rd \<and> n = PosInf)"
    if "audio_loop rd n received leftover = Some y" for rd n received leftover y
    by (rule audio_loop.raw_induct [OF _ that]) (auto split: if_splits read_result.splits)
  from this [of "sconst (Chunk [1])" PosInf 0 "[]"] show ?thesis
    by (cases "audio_loop (sconst (Chunk [1])) PosInf 0 []") auto
qed

lemma payload_diverges: "payload_loop (sconst (Chunk [])) (Num 16) [] = None"
proof -
  have "\<not> (shd rd = Chunk [] \<and> stl rd = rd \<and> js_less (Num (of_nat (length metadata))) m)"
    if "payload_loop rd m metadata = Some y" for rd m metadata y
    by (rule payload_loop.raw_induct [OF _ that]) (auto split: if_splits read_result.splits simp: concat_buf_def)
  from this [of "sconst (Chunk [])" "Num 16" "[]"] show ?thesis
    by (cases "payload_loop (sconst (Chunk [])) (Num 16) []") auto
qed

lemma audio_loop_terminates_finite:
  assumes "\<forall>r \<in> sset rd. r \<noteq> Chunk []"
  shows "\<exists>y. audio_loop rd (Num q) received leftover = Some y"
  using assms
proof (induction "nat (\<lceil>q\<rceil> - received)" arbitrary: rd received leftover rule: less_induct)
  case less
  show ?case
  proof (cases "js_less (Num (of_int received)) (Num q)")
    case False
    then show ?thesis by (subst audio_loop.simps) simp
  next
    case True
    then have lt: "received < \<lceil>q\<rceil>"
      by (simp only: js_less_int)
    show ?thesis
    proof (cases "shd rd")
      case Done
      with True show ?thesis by (subst audio_loop.simps) simp
    next
      case (Chunk v)
      have "shd rd \<in> sset rd" by (simp add: shd_sset)
      with Chunk less.prems have "v \<noteq> []" by auto
      then have "nat (\<lceil>q\<rceil> - (received + int (length v))) < nat (\<lceil>q\<rceil> - received)"
        using lt by (cases v) auto
      moreover have "\<forall>r \<in> sset (stl rd). r \<noteq> Chunk []"
        using less.prems by (auto dest: stl_sset)
      ultimately obtain y where "audio_loop (stl rd) (Num q) (received + int (length v)) v = Some y"
        using less.hyps by blast
      with True Chunk show ?thesis
        by (subst audio_loop.simps) simp
    qed
  qed
qed

lemma audio_loop_terminates:
  assumes "\<forall>r \<in> sset rd. r \<noteq> Chunk []" and "n \<noteq> PosInf"
  shows "\<exists>y. audio_loop rd n received leftover = Some y"
proof (cases n)
  case NaN
  then show ?thesis by (simp add: audio_loop.simps)
next
  case (Num q)
  with audio_loop_terminates_finite [OF assms(1)] show ?thesis by simp
next
  case PosInf
  with assms(2) show ?thesis by simp
next
  case NegInf
  then show ?thesis by (simp add: audio_loop.simps)
qed

lemma payload_loop_terminates_finite:
  assumes "\<forall>r \<in> sset rd. r \<noteq> Chunk []"
  shows "\<exists>y. payload_loop rd (Num k) metadata = Some y"
  using assms
proof (induction "nat (\<lceil>k\<rceil> - int (length metadata))" arbitrary: rd metadata rule: less_induct)
  case less
  show ?case
  proof (cases "js_less (Num (of_nat (length metadata))) (Num k)")
    case False
    then show ?thesis by (subst payload_loop.simps) simp
  next
    case True
    then have lt: "int (length metadata) < \<lceil>k\<rceil>"
      by (simp only: js_less_nat)
    show ?thesis
    proof (cases "shd rd")
      case Done
      with True show ?thesis by (subst payload_loop.simps) simp
    next
      case (Chunk v)
      have "shd rd \<in> sset rd" by (simp add: shd_sset)
      with Chunk less.prems have "v \<noteq> []" by auto
      then have "nat (\<lceil>k\<rceil> - int (length (concat_buf metadata v))) < nat (\<lceil>k\<rceil> - int (length metadata))"
        using lt by (cases v) (auto simp: concat_buf_def)
      moreover have "\<forall>r \<in> sset (stl rd). r \<noteq> Chunk []"
        using less.prems by (auto dest: stl_sset)
      ultimately obtain y where "payload_loop (stl rd) (Num k) (concat_buf metadata v) = Some y"
        using less.hyps by blast
      with True Chunk show ?thesis
        by (subst payload_loop.simps) simp
    qed
  qed
qed

lemma payload_loop_terminates:
  assumes "\<forall>r \<in> sset rd. r \<noteq> Chunk []" and "m \<noteq> PosInf"
  shows "\<exists>y. payload_loop rd m metadata = Some y"
proof (cases m)
  case NaN
  then show ?thesis by (simp add: payload_loop.simps)
next
  case (Num k)
  with payload_loop_terminates_finite [OF assms(1)] show ?thesis by simp
next
  case PosInf
  with assms(2) show ?thesis by simp
next
  case NegInf
  then show ?thesis by (simp add: payload_loop.simps)
qed

lemma audio_loop_sset:
  assumes "audio_loop rd n received leftover = Some (rd1, r)"
  shows "sset rd1 \<subseteq> sset rd"
proof -
  have "sset (fst y) \<subseteq> sset rd"
    if "audio_loop rd n received leftover = Some y" for y
  proof (rule audio_loop.raw_induct [OF _ that])
    fix f :: "reader \<Rightarrow> jsnum \<Rightarrow> int \<Rightarrow> byte list \<Rightarrow> (reader \<times> (error + int \<times> byte list)) option"
    fix rd n received leftover y
    assume ih: "\<And>rd n received leftover y. f rd n received leftover = Some y \<Longrightarrow> sset (fst y) \<subseteq> sset rd"
      and b: "(if js_less (Num (of_int received)) n then
                 (case shd rd of
                    Chunk v \<Rightarrow> f (stl rd) n (received + int (length v)) v
                  | Done \<Rightarrow> Some (stl rd, Inl StreamEndedEarly))
               else Some (rd, Inr (received, leftover))) = Some y"
    have s: "sset (stl rd) \<subseteq> sset rd"
      by (auto dest: stl_sset)
    show "sset (fst y) \<subseteq> sset rd"
    proof (cases "js_less (Num (of_int received)) n")
      case False
      with b show ?thesis by auto
    next
      case True
      show ?thesis
      proof (cases "shd rd")
        case Done
        with True b s show ?thesis by auto
      next
        case (Chunk v)
        with True b have "f (stl rd) n (received + int (length v)) v = Some y" by simp
        from ih [OF this] s show ?thesis by blast
      qed
    qed
  qed
  from this [OF assms] show ?thesis by simp
qed

lemma meta_start_sset: "sset (fst (meta_start rd n received leftover)) \<subseteq> sset rd"
  by (auto simp: meta_start_def Let_def split: read_result.splits dest: stl_sset)

lemma after_boundary_terminates:
  assumes "\<forall>r \<in> sset rd. r \<noteq> Chunk []"
  shows "\<exists>y. after_boundary rd n received leftover = Some y"
proof (cases "meta_start rd n received leftover")
  case (Pair rd2 r)
  then have "sset rd2 \<subseteq> sset rd"
    using meta_start_sset [of rd n received leftover] by simp
  with assms have ne: "\<forall>r \<in> sset rd2. r \<noteq> Chunk []" by auto
  show ?thesis
  proof (cases r)
    case (Inl e)
    with Pair show ?thesis by (simp add: after_boundary_def)
  next
    case (Inr metaStart)
    obtain y where "payload_loop rd2 (times16 (index0 metaStart)) (slice metaStart (Num 1) None) = Some y"
      using payload_loop_terminates [OF ne times16_finite] by blast
    with Pair Inr show ?thesis
      by (cases y) (simp add: after_boundary_def)
  qed
qed

lemma try_block_terminates:
  assumes "\<forall>r \<in> sset rd. r \<noteq> Chunk []" and "n \<noteq> PosInf"
  shows "\<exists>y. try_block rd n = Some y"
proof -
  obtain rd1 r where a: "audio_loop rd n 0 [] = Some (rd1, r)"
    using audio_loop_terminates [OF assms, of 0 "[]"] by auto
  show ?thesis
  proof (cases r)
    case (Inl e)
    with a show ?thesis by (simp add: try_block_def)
  next
    case (Inr p)
    have "\<forall>r \<in> sset rd1. r \<noteq> Chunk []"
      using audio_loop_sset [OF a] assms(1) by auto
    then obtain y where "after_boundary rd1 n (fst p) (snd p) = Some y"
      using after_boundary_terminates by blast
    with a Inr show ?thesis
      by (cases p) (simp add: try_block_def)
  qed
qed

lemma parseOnce_terminates:
  assumes "\<forall>r \<in> sset (body res). r \<noteq> Chunk []" and "hdr_icy_metaint res \<noteq> PlusInfinity"
  shows "\<exists>out. parseOnce res = Some out"
proof -
  have "Number (hdr_icy_metaint res) \<noteq> PosInf"
    using assms(2) by (cases "hdr_icy_metaint res") auto
  then obtain y where "try_block (body res) (Number (hdr_icy_metaint res)) = Some y"
    using try_block_terminates [OF assms(1)] by blast
  then show ?thesis
    by (cases y) (simp_all add: parseOnce_def Let_def)
qed

lemma audio_diverges_parseOnce: "parseOnce (response_of (Numeric 1) (sconst (Chunk []))) = None"
  by (simp add: parseOnce_def response_of_def try_block_def audio_diverges)

lemma infinite_diverges_parseOnce: "parseOnce (response_of PlusInfinity (sconst (Chunk [1]))) = None"
  by (simp add: parseOnce_def response_of_def try_block_def audio_diverges_infinite)

lemma payload_diverges_parseOnce: "parseOnce (response_of (Numeric 1) (Chunk [65, 1] ## sconst (Chunk []))) = None"
proof -
  have "audio_loop (Chunk [65, 1] ## sconst (Chunk [])) (Num 1) 0 [] = Some (sconst (Chunk []), Inr (2, [65, 1]))"
    by (subst audio_loop.simps, simp, subst audio_loop.simps, simp)
  then show ?thesis
    by (simp add: parseOnce_def response_of_def try_block_def after_boundary_def meta_start_def
        slice_def trunc_def payload_diverges)
qed

lemma sconst_unfold: "x ## sconst x = sconst x"
  using shift_replicate_sconst [of "Suc 0" x] by simp

lemma audio_loop_short:
  "js_less (Num (of_int (received + int (length (concat cs))))) n \<Longrightarrow>
   audio_loop (map Chunk cs @- Done ## rest) n received leftover = Some (rest, Inl StreamEndedEarly)"
proof (induction cs arbitrary: received leftover)
  case Nil
  then show ?case by (subst audio_loop.simps) simp
next
  case (Cons c cs)
  have mono: "js_less (Num (of_int a)) n" if "js_less (Num (of_int b)) n" "a \<le> b" for a b
    using that by (cases n) auto
  from Cons.prems have 1: "js_less (Num (of_int received)) n"
    by (rule mono) simp
  from Cons.prems have 2: "js_less (Num (of_int (received + int (length c) + int (length (concat cs))))) n"
    by (simp add: add.assoc)
  from Cons.IH [OF 2, of c] 1 show ?case
    by (subst audio_loop.simps) simp
qed

lemma after_boundary_error:
  "after_boundary rd n received leftover = Some (Inl e) \<Longrightarrow> e = MetadataReadFailed"
  by (auto simp: after_boundary_def meta_start_def Let_def
      split: if_splits read_result.splits option.splits prod.splits)

lemma try_block_error:
  assumes "try_block rd n = Some (Inl e)"
  shows "e \<noteq> UnsupportedStream"
proof (cases "audio_loop rd n 0 []")
  case None
  with assms show ?thesis by (simp add: try_block_def)
next
  case (Some y)
  obtain rd1 r where y: "y = (rd1, r)" by (cases y)
  show ?thesis
  proof (cases r)
    case (Inl e')
    with Some y assms audio_loop_error [of rd n 0 "[]" rd1 r] show ?thesis
      by (auto simp: try_block_def)
  next
    case (Inr p)
    with Some y assms have "after_boundary rd1 n (fst p) (snd p) = Some (Inl e)"
      by (cases p) (simp add: try_block_def)
    from after_boundary_error [OF this] show ?thesis by simp
  qed
qed


section \<open>Chunks and bytes\<close>

text \<open>The definitions at an integer interval and an integer length.\<close>

lemma trunc_of_int: "trunc (of_int k) = k"
  by (simp add: trunc_def)

lemma rel_index_int:
  "rel_index len (Num (of_int k)) = (if k < 0 then max (len + k) 0 else min k len)"
  by (simp add: trunc_of_int)

lemma audio_loop_int:
  "audio_loop rd (Num (of_int n)) received leftover =
     (if received < n then
        (case shd rd of
           Done \<Rightarrow> Some (stl rd, Inl StreamEndedEarly)
         | Chunk v \<Rightarrow> audio_loop (stl rd) (Num (of_int n)) (received + int (length v)) v)
      else Some (rd, Inr (received, leftover)))"
  by (subst audio_loop.simps) simp

lemma meta_start_int:
  "meta_start rd (Num (of_int n)) received leftover =
     (if received - n > 0 then
        (rd, Inr (slice leftover (Num (of_int (int (length leftover) - (received - n)))) None))
      else
        (case shd rd of
           Done \<Rightarrow> (stl rd, Inl MetadataReadFailed)
         | Chunk v \<Rightarrow> (stl rd, Inr v)))"
proof -
  have "(0 :: rat) < of_int received - of_int n \<longleftrightarrow> 0 < received - n"
    by (metis of_int_0_less_iff of_int_diff)
  then show ?thesis
    by (simp add: meta_start_def Let_def)
qed

lemma payload_loop_int:
  "payload_loop rd (Num (of_int m)) metadata =
     (if int (length metadata) < m then
        (case shd rd of
           Done \<Rightarrow> Some (stl rd, metadata)
         | Chunk v \<Rightarrow> payload_loop (stl rd) (Num (of_int m)) (concat_buf metadata v))
      else Some (rd, metadata))"
proof -
  have "(of_nat (length metadata) :: rat) < of_int m \<longleftrightarrow> int (length metadata) < m"
    by (metis of_int_less_iff of_int_of_nat_eq)
  then show ?thesis
    by (subst payload_loop.simps) simp
qed

lemma try_block_try_from: "try_block rd n = try_from rd n 0 []"
  by (simp add: try_block_def try_from_def)

lemma try_from_Chunk:
  assumes "received < n"
  shows "try_from (Chunk c ## rd) (Num (of_int n)) received leftover =
    (if received + int (length c) < n then
       try_from rd (Num (of_int n)) (received + int (length c)) c
     else after_boundary rd (Num (of_int n)) (received + int (length c)) c)"
proof (cases "received + int (length c) < n")
  case True
  with assms show ?thesis
    unfolding try_from_def by (subst audio_loop_int) simp
next
  case False
  then have "audio_loop rd (Num (of_int n)) (received + int (length c)) c =
      Some (rd, Inr (received + int (length c), c))"
    by (subst audio_loop_int) simp
  with assms False show ?thesis
    unfolding try_from_def by (subst audio_loop_int) simp
qed

lemma try_from_Done:
  assumes "received < n" and "shd rd = Done"
  shows "try_from rd (Num (of_int n)) received leftover = Some (Inl StreamEndedEarly)"
  using assms unfolding try_from_def by (subst audio_loop_int) simp

lemma payload_loop_chunks:
  assumes "shd rest = Done \<or> m \<le> int (length (metadata @ concat vs))"
  shows "\<exists>rd' acc. payload_loop (map Chunk vs @- rest) (Num (of_int m)) metadata = Some (rd', acc) \<and>
    take (nat m) acc = take (nat m) (metadata @ concat vs)"
  using assms
proof (induction vs arbitrary: metadata)
  case Nil
  then show ?case
    by (subst payload_loop_int) auto
next
  case (Cons v vs)
  show ?case
  proof (cases "int (length metadata) < m")
    case False
    then show ?thesis
      by (subst payload_loop_int) simp
  next
    case True
    from Cons.prems have "shd rest = Done \<or> m \<le> int (length ((metadata @ v) @ concat vs))"
      by simp
    from Cons.IH [OF this] True show ?thesis
      by (subst payload_loop_int) (simp add: concat_buf_def)
  qed
qed

lemma raw_of_take:
  "0 \<le> m \<Longrightarrow>
   raw_of acc (Num (of_int m)) = replace_trailing_nuls (TextDecoder_decode (take (nat m) acc))"
  by (simp add: raw_of_def slice_def Let_def min_def trunc_def)

lemma slice_tail: "slice (b # t) (Num 1) None = t"
  by (simp add: slice_def Let_def trunc_def)

lemma slice_from: "k \<le> length c \<Longrightarrow> slice c (Num (of_int (int k))) None = drop k c"
  by (simp add: slice_def Let_def rel_index_int del: rel_index.simps of_int_of_nat_eq)

lemma from_meta_start:
  assumes "shd rest = Done \<or> 16 * unat b \<le> length (t @ concat cs)"
  shows "(let metadataLength = times16 (index0 (b # t))
          in case payload_loop (map Chunk cs @- rest) metadataLength (slice (b # t) (Num 1) None) of
               None \<Rightarrow> None
             | Some (rd3, metadata) \<Rightarrow> Some (Inr (raw_of metadata metadataLength))) =
     Some (Inr (replace_trailing_nuls (TextDecoder_decode (take (16 * unat b) (t @ concat cs)))))"
proof -
  have m: "nat (uint b * 16) = 16 * unat b"
    by (simp add: nat_mult_distrib mult.commute)
  have u: "uint b = int (unat b)"
    by simp
  have "shd rest = Done \<or> uint b * 16 \<le> int (length (t @ concat cs))"
    using assms unfolding u by linarith
  from payload_loop_chunks [OF this] obtain rd' acc where
    p: "payload_loop (map Chunk cs @- rest) (Num (of_int (uint b * 16))) t = Some (rd', acc)"
    and t: "take (nat (uint b * 16)) acc = take (nat (uint b * 16)) (t @ concat cs)"
    by blast
  have "raw_of acc (Num (of_int (uint b * 16))) =
      replace_trailing_nuls (TextDecoder_decode (take (nat (uint b * 16)) acc))"
    by (rule raw_of_take) simp
  moreover have "take (16 * unat b) acc = take (16 * unat b) (t @ concat cs)"
    using t by (simp only: m)
  ultimately have "raw_of acc (Num (of_int (uint b * 16))) =
      replace_trailing_nuls (TextDecoder_decode (take (16 * unat b) (t @ concat cs)))"
    by (simp only: m)
  with p show ?thesis
    by (simp add: slice_tail)
qed

lemma icy_block_Cons0:
  "icy_block 0 (b # t) = Inr (replace_trailing_nuls (TextDecoder_decode (take (16 * unat b) t)))"
  by (simp add: icy_block_def)

lemma icy_block_append:
  "length c \<le> k \<Longrightarrow> icy_block k (c @ bs) = icy_block (k - length c) bs"
  by (auto simp: icy_block_def nth_append Suc_diff_le)

lemma complete_block_append:
  "length c \<le> k \<Longrightarrow> complete_block k (c @ bs) = complete_block (k - length c) bs"
  by (auto simp: complete_block_def nth_append)

lemma icy_block_drop:
  assumes "k < length c"
  shows "icy_block k (c @ bs) = icy_block 0 (drop k c @ bs)"
proof -
  have d: "drop k c = c ! k # drop (Suc k) c"
    using assms by (simp add: Cons_nth_drop_Suc)
  have "icy_block k (c @ bs) =
      Inr (replace_trailing_nuls
        (TextDecoder_decode (take (16 * unat (c ! k)) (drop (Suc k) c @ bs))))"
    using assms by (simp add: icy_block_def nth_append)
  also have "\<dots> = icy_block 0 (drop k c @ bs)"
    by (simp only: d append_Cons icy_block_Cons0)
  finally show ?thesis .
qed

lemma complete_block_drop:
  "k < length c \<Longrightarrow> complete_block k (c @ bs) = complete_block 0 (drop k c @ bs)"
  by (auto simp: complete_block_def nth_append)

lemma after_boundary_overflow:
  assumes "k < length c" and "received = n + int (length c - k)"
    and "shd rest = Done \<or> complete_block 0 (drop k c @ concat cs)"
  shows "after_boundary (map Chunk cs @- rest) (Num (of_int n)) received c =
    Some (icy_block 0 (drop k c @ concat cs))"
proof -
  obtain b t where d: "drop k c = b # t"
    using assms(1) by (cases "drop k c") auto
  have "int (length c) - (received - n) = int k"
    using assms(1,2) by simp
  then have m: "meta_start (map Chunk cs @- rest) (Num (of_int n)) received c =
      (map Chunk cs @- rest, Inr (b # t))"
    using assms(1,2) d by (simp only: meta_start_int slice_from) simp
  have "shd rest = Done \<or> 16 * unat b \<le> length (t @ concat cs)"
    using assms(3) d by (auto simp: complete_block_def)
  from from_meta_start [OF this] m d show ?thesis
    by (simp add: after_boundary_def icy_block_Cons0)
qed

lemma after_boundary_exact:
  assumes "\<forall>c \<in> set cs. c \<noteq> []"
    and "shd rest = Done \<or> complete_block 0 (concat cs)"
  shows "after_boundary (map Chunk cs @- rest) (Num (of_int n)) n c = Some (icy_block 0 (concat cs))"
proof (cases cs)
  case Nil
  with assms(2) have "shd rest = Done"
    by (simp add: complete_block_def)
  with Nil show ?thesis
    by (simp add: after_boundary_def meta_start_int icy_block_def)
next
  case (Cons c' cs')
  with assms(1) obtain b t where c': "c' = b # t"
    by (cases c') auto
  have m: "meta_start (map Chunk cs @- rest) (Num (of_int n)) n c =
      (map Chunk cs' @- rest, Inr (b # t))"
    using Cons c' by (simp add: meta_start_int)
  have "shd rest = Done \<or> 16 * unat b \<le> length (t @ concat cs')"
    using assms(2) Cons c' by (auto simp: complete_block_def)
  from from_meta_start [OF this] m Cons c' show ?thesis
    by (simp add: after_boundary_def icy_block_Cons0)
qed

lemma try_from_chunks:
  assumes "\<forall>c \<in> set cs. c \<noteq> []" and "received < n"
    and "shd rest = Done \<or> complete_block (nat (n - received)) (concat cs)"
  shows "try_from (map Chunk cs @- rest) (Num (of_int n)) received leftover =
    Some (icy_block (nat (n - received)) (concat cs))"
  using assms
proof (induction cs arbitrary: received leftover)
  case Nil
  then have "shd rest = Done"
    by (simp add: complete_block_def)
  with Nil.prems(2) show ?case
    by (simp add: try_from_Done icy_block_def)
next
  case (Cons c cs)
  let ?k = "nat (n - received)"
  let ?r = "received + int (length c)"
  from Cons.prems have ne: "\<forall>c \<in> set cs. c \<noteq> []" and lt: "received < n"
    by auto
  consider (below) "?r < n" | (exact) "?r = n" | (above) "n < ?r"
    by linarith
  then show ?case
  proof cases
    case below
    then have le: "length c \<le> ?k" and k: "?k - length c = nat (n - ?r)"
      by auto
    have "shd rest = Done \<or> complete_block (nat (n - ?r)) (concat cs)"
      using Cons.prems(3) complete_block_append [OF le, of "concat cs"] k by simp
    from Cons.IH [OF ne below this, of c] below lt show ?thesis
      using icy_block_append [OF le, of "concat cs"] k
      by (simp add: try_from_Chunk)
  next
    case exact
    then have le: "length c \<le> ?k" and k: "?k - length c = 0"
      by auto
    have "shd rest = Done \<or> complete_block 0 (concat cs)"
      using Cons.prems(3) complete_block_append [OF le, of "concat cs"] k by simp
    from after_boundary_exact [OF ne this, of n c] exact lt show ?thesis
      using icy_block_append [OF le, of "concat cs"] k
      by (simp add: try_from_Chunk)
  next
    case above
    then have k: "?k < length c" and r: "?r = n + int (length c - ?k)"
      using lt by auto
    have "shd rest = Done \<or> complete_block 0 (drop ?k c @ concat cs)"
      using Cons.prems(3) complete_block_drop [OF k, of "concat cs"] by simp
    from after_boundary_overflow [OF k r this] above lt show ?thesis
      using icy_block_drop [OF k, of "concat cs"]
      by (simp add: try_from_Chunk)
  qed
qed

lemma try_block_chunks:
  assumes "\<forall>c \<in> set cs. c \<noteq> []" and "0 < n"
    and "shd rest = Done \<or> complete_block (nat n) (concat cs)"
  shows "try_block (map Chunk cs @- rest) (Num (of_int n)) = Some (icy_block (nat n) (concat cs))"
  using try_from_chunks [of cs 0 n rest "[]"] assms by (simp add: try_block_try_from)

lemma parseOnce_try_block:
  assumes "hdr_icy_metaint res = Numeric n" and "n \<noteq> 0"
  shows "parseOnce res =
    (case try_block (body res) (Num n) of
       None \<Rightarrow> None
     | Some (Inl e) \<Rightarrow>
         Some \<lparr> result = Inl e, effects = [Fetch, GetReader, Abort, ReleaseLock] \<rparr>
     | Some (Inr r) \<Rightarrow>
         Some \<lparr> result = Inr (make_result res r),
                effects = [Fetch, GetReader, Abort, ReleaseLock] \<rparr>)"
  using assms by (simp add: parseOnce_def Let_def)

lemma payload_loop_end:
  "int (length (metadata @ concat vs)) < m \<Longrightarrow>
   payload_loop (map Chunk vs @- Done ## rest) (Num (of_int m)) metadata =
     Some (rest, metadata @ concat vs)"
proof (induction vs arbitrary: metadata)
  case Nil
  then show ?case by (subst payload_loop_int) simp
next
  case (Cons v vs)
  from Cons.prems have "int (length metadata) < m" by simp
  with Cons.IH [of "metadata @ v"] Cons.prems show ?case
    by (subst payload_loop_int) (simp add: concat_buf_def)
qed

section \<open>NUL bytes in the decoder\<close>

lemma utf8_decode_nul:
  "needed = 0 \<or> 0 < lo \<Longrightarrow>
   utf8_decode cp seen needed lo hi (a @ 0 # b) =
     utf8_decode cp seen needed lo hi a @ 0 # utf8_decode 0 0 0 0x80 0xBF b"
proof (induction cp seen needed lo hi a rule: utf8_decode.induct)
  case (1 cp seen needed lo hi)
  then show ?case by auto
next
  case (2 cp seen needed lo hi x xs)
  show ?case
  proof (cases "needed = 0")
    case True
    with 2 show ?thesis by simp
  next
    case False
    with 2 show ?thesis by simp
  qed
qed

lemma decoder_ok_init: "decoder_ok 0 0 lo hi"
  by (simp add: decoder_ok_def)

lemma mod_window:
  fixes b k m :: nat
  assumes "k * m \<le> b" and "b < k * m + m"
  shows "b mod m = b - k * m"
proof -
  obtain r where r: "b = r + k * m" and "r < m"
    using assms by (intro that [of "b - k * m"]) auto
  then show ?thesis by simp
qed

lemma decoder_ok_lead2:
  assumes "0xC2 \<le> b" and "b \<le> 0xDF"
  shows "decoder_ok (b mod 32) 1 0x80 0xBF"
proof -
  have "b mod 32 = b - 6 * 32"
    using assms by (intro mod_window) auto
  with assms show ?thesis
    by (simp add: decoder_ok_def)
qed

lemma decoder_ok_lead3:
  assumes "0xE0 \<le> b" and "b \<le> 0xEF"
  shows "decoder_ok (b mod 16) 2 (if b = 0xE0 then 0xA0 else 0x80) (if b = 0xED then 0x9F else 0xBF)"
proof -
  have "b mod 16 = b - 14 * 16"
    using assms by (intro mod_window) auto
  with assms show ?thesis
    by (auto simp: decoder_ok_def)
qed

lemma decoder_ok_lead4:
  assumes "0xF0 \<le> b" and "b \<le> 0xF4"
  shows "decoder_ok (b mod 8) 3 (if b = 0xF0 then 0x90 else 0x80) (if b = 0xF4 then 0x8F else 0xBF)"
proof -
  have "b mod 8 = b - 30 * 8"
    using assms by (intro mod_window) auto
  with assms show ?thesis
    by (auto simp: decoder_ok_def)
qed

lemma decoder_ok_cont:
  assumes "decoder_ok cp needed lo hi" "needed \<noteq> 0" "lo \<le> b" "b \<le> hi"
  shows "0 < cp * 64 + b mod 64"
proof (cases "0 < cp")
  case True
  then show ?thesis by simp
next
  case False
  with assms have b: "0x80 < b" "b \<le> 0xBF"
    by (auto simp: decoder_ok_def)
  then have "b mod 64 = b - 2 * 64"
    by (intro mod_window) auto
  with b show ?thesis by simp
qed

lemma decoder_ok_next:
  assumes "decoder_ok cp needed lo hi" "needed \<noteq> 0" "lo \<le> b" "b \<le> hi"
  shows "decoder_ok (cp * 64 + b mod 64) needed 0x80 0xBF"
  using decoder_ok_cont [OF assms] by (simp add: decoder_ok_def)

lemma utf8_decode_last:
  "decoder_ok cp needed lo hi \<Longrightarrow> bs \<noteq> [] \<Longrightarrow> last bs \<noteq> 0 \<Longrightarrow>
   utf8_decode cp seen needed lo hi bs \<noteq> [] \<and> last (utf8_decode cp seen needed lo hi bs) \<noteq> 0"
proof (induction cp seen needed lo hi bs rule: utf8_decode.induct)
  case (1 cp seen needed lo hi)
  then show ?case by simp
next
  case (2 cp seen needed lo hi x xs)
  note ok = \<open>decoder_ok cp needed lo hi\<close>
  show ?case
  proof (cases "xs = []")
    case True
    with "2.prems" have x: "x \<noteq> 0" by simp
    show ?thesis
    proof (cases "needed = 0")
      case True
      with x \<open>xs = []\<close> show ?thesis by simp
    next
      case False
      show ?thesis
      proof (cases "lo \<le> x \<and> x \<le> hi")
        case False
        with \<open>needed \<noteq> 0\<close> \<open>xs = []\<close> x show ?thesis
          by simp
      next
        case True
        with decoder_ok_cont [OF ok \<open>needed \<noteq> 0\<close>, of x] \<open>needed \<noteq> 0\<close> \<open>xs = []\<close> show ?thesis
          by simp
      qed
    qed
  next
    case False
    with "2.prems" have l: "last xs \<noteq> 0" by simp
    show ?thesis
    proof (cases "needed = 0")
      case True
      with "2.IH"(1-5) [OF True] False l decoder_ok_init decoder_ok_lead2 [of x]
        decoder_ok_lead3 [of x] decoder_ok_lead4 [of x]
      show ?thesis
        by simp
    next
      case n: False
      show ?thesis
      proof (cases "lo \<le> x \<and> x \<le> hi")
        case False
        with "2.IH"(6) [OF n] "2.prems"(2,3) decoder_ok_init n show ?thesis
          by simp
      next
        case True
        with "2.IH"(7,8) [OF n] False l decoder_ok_init decoder_ok_next [OF ok n, of x] n
        show ?thesis
          by simp
      qed
    qed
  qed
qed

lemma of_nat_16_nonzero:
  assumes "0 < n" and "n < 65536"
  shows "(of_nat n :: 16 word) \<noteq> 0"
proof -
  have "unat (of_nat n :: 16 word) = n"
    using assms(2) by (simp add: unat_of_nat)
  with assms(1) show ?thesis by auto
qed

lemma utf16_last:
  assumes "cp \<noteq> 0"
  shows "utf16 cp \<noteq> [] \<and> last (utf16 cp) \<noteq> 0"
proof (cases "cp < 0x10000")
  case True
  with assms of_nat_16_nonzero [of cp] show ?thesis
    by (simp add: utf16_def)
next
  case False
  define n where "n = 0xDC00 + (cp - 0x10000) mod 0x400"
  have "(cp - 0x10000) mod 0x400 < 0x400" by simp
  then have "0 < n" and "n < 65536"
    by (simp_all add: n_def)
  then have "(of_nat n :: 16 word) \<noteq> 0"
    by (rule of_nat_16_nonzero)
  with False show ?thesis
    unfolding utf16_def n_def by simp
qed

lemma utf16_0: "utf16 0 = [0]"
  by (simp add: utf16_def)

lemma TextDecoder_decode_nul:
  "TextDecoder_decode (a @ 0 # b) =
     TextDecoder_decode a @ 0 # concat (map utf16 (utf8_decode 0 0 0 0x80 0xBF (map unat b)))"
proof -
  have "strip_bom (xs @ 0 # ys) = strip_bom xs @ 0 # ys" for xs ys :: "nat list"
    by (cases xs) auto
  then show ?thesis
    by (simp add: TextDecoder_decode_def utf8_decode_nul utf16_0)
qed

lemma TextDecoder_decode_snoc_nul: "TextDecoder_decode (a @ [0]) = TextDecoder_decode a @ [0]"
  using TextDecoder_decode_nul [of a "[]"] by simp

lemma TextDecoder_decode_replicate:
  "TextDecoder_decode (a @ replicate k 0) = TextDecoder_decode a @ replicate k 0"
proof (induction k)
  case 0
  show ?case by simp
next
  case (Suc k)
  have "TextDecoder_decode (a @ replicate (Suc k) 0) = TextDecoder_decode ((a @ replicate k 0) @ [0])"
    by (simp add: replicate_append_same)
  also have "\<dots> = TextDecoder_decode (a @ replicate k 0) @ [0]"
    by (rule TextDecoder_decode_snoc_nul)
  finally show ?case
    using Suc by (simp add: replicate_append_same)
qed

lemma strip_bom_last:
  "xs \<noteq> [] \<Longrightarrow> last xs \<noteq> 0 \<Longrightarrow> strip_bom xs = [] \<or> last (strip_bom xs) \<noteq> 0"
  by (cases xs) (auto split: if_splits)

lemma concat_utf16_last:
  assumes "xs \<noteq> []" and "last xs \<noteq> 0"
  shows "concat (map utf16 xs) \<noteq> [] \<and> last (concat (map utf16 xs)) \<noteq> 0"
proof -
  have "xs = butlast xs @ [last xs]"
    using assms(1) by simp
  then have "concat (map utf16 xs) = concat (map utf16 (butlast xs)) @ utf16 (last xs)"
    by (metis concat_append concat.simps(2) append_Nil2 concat.simps(1) list.simps(8,9) map_append)
  with utf16_last [OF assms(2)] show ?thesis
    by simp
qed

lemma TextDecoder_decode_last:
  assumes "p \<noteq> []" and "last p \<noteq> 0"
  shows "TextDecoder_decode p = [] \<or> last (TextDecoder_decode p) \<noteq> 0"
proof -
  let ?cps = "utf8_decode 0 0 0 0x80 0xBF (map unat p)"
  have "last (map unat p) \<noteq> 0"
    using assms by (simp add: last_map unat_eq_0)
  with assms(1) have "?cps \<noteq> [] \<and> last ?cps \<noteq> 0"
    by (intro utf8_decode_last decoder_ok_init) auto
  then have "strip_bom ?cps = [] \<or> last (strip_bom ?cps) \<noteq> 0"
    using strip_bom_last by blast
  then show ?thesis
  proof
    assume "strip_bom ?cps = []"
    then show ?thesis by (simp add: TextDecoder_decode_def)
  next
    assume l: "last (strip_bom ?cps) \<noteq> 0"
    show ?thesis
    proof (cases "strip_bom ?cps = []")
      case True
      then show ?thesis by (simp add: TextDecoder_decode_def)
    next
      case False
      from concat_utf16_last [OF False l] show ?thesis
        by (simp add: TextDecoder_decode_def)
    qed
  qed
qed

lemma replace_trailing_nuls_replicate:
  "replace_trailing_nuls (s @ replicate k 0) = replace_trailing_nuls s"
proof (induction s)
  case Nil
  show ?case by (cases k) (simp_all add: list_all_iff)
next
  case (Cons c s)
  have "list_all (\<lambda>x. x = 0) (c # s @ replicate k 0) = list_all (\<lambda>x. x = 0) (c # s)"
    by (auto simp: list_all_iff)
  with Cons show ?case by simp
qed

lemma replace_trailing_nuls_id:
  "s = [] \<or> last s \<noteq> 0 \<Longrightarrow> replace_trailing_nuls s = s"
proof (induction s)
  case Nil
  show ?case by simp
next
  case (Cons c s)
  have "last (c # s) \<in> set (c # s)"
    by (rule last_in_set) simp
  moreover have "last (c # s) \<noteq> 0"
    using Cons.prems by simp
  ultimately have "\<not> list_all (\<lambda>x. x = 0) (c # s)"
    unfolding list_all_iff by blast
  moreover have "s = [] \<or> last s \<noteq> 0"
    using Cons.prems by (auto split: if_splits)
  ultimately show ?case
    using Cons.IH by simp
qed

lemma trailing_run:
  fixes p :: "'a::zero list"
  defines "q \<equiv> rev (dropWhile (\<lambda>b. b = 0) (rev p))"
  shows "\<exists>k. p = q @ replicate k 0" and "q = [] \<or> last q \<noteq> 0"
proof -
  let ?t = "takeWhile (\<lambda>b. b = 0) (rev p)"
  have "rev p = ?t @ dropWhile (\<lambda>b. b = 0) (rev p)"
    by simp
  then have "p = q @ rev ?t"
    unfolding q_def by (metis rev_append rev_rev_ident)
  moreover have "rev ?t = replicate (length ?t) 0"
    by (rule replicate_eqI) (auto dest: set_takeWhileD)
  ultimately show "\<exists>k. p = q @ replicate k 0"
    by metis
  show "q = [] \<or> last q \<noteq> 0"
    unfolding q_def using hd_dropWhile [of "\<lambda>b. b = 0" "rev p"]
    by (auto simp: last_rev)
qed

lemma replace_trailing_nuls_eq:
  "replace_trailing_nuls s = rev (dropWhile (\<lambda>c. c = 0) (rev s))"
proof -
  obtain k where "s = rev (dropWhile (\<lambda>c. c = 0) (rev s)) @ replicate k 0"
    using trailing_run(1) [of s] by blast
  then have "replace_trailing_nuls s =
      replace_trailing_nuls (rev (dropWhile (\<lambda>c. c = 0) (rev s)))"
    by (metis replace_trailing_nuls_replicate)
  then show ?thesis
    using replace_trailing_nuls_id [OF trailing_run(2) [of s]] by simp
qed

lemma strip_after_decode:
  "replace_trailing_nuls (TextDecoder_decode p) =
     TextDecoder_decode (rev (dropWhile (\<lambda>b. b = 0) (rev p)))"
proof -
  define q where "q = rev (dropWhile (\<lambda>b. b = 0) (rev p))"
  obtain k where "p = q @ replicate k 0"
    using trailing_run(1) [of p] unfolding q_def by blast
  then have "TextDecoder_decode p = TextDecoder_decode q @ replicate k 0"
    by (simp only: TextDecoder_decode_replicate)
  then have "replace_trailing_nuls (TextDecoder_decode p) =
      replace_trailing_nuls (TextDecoder_decode q)"
    by (simp only: replace_trailing_nuls_replicate)
  moreover have "TextDecoder_decode q = [] \<or> last (TextDecoder_decode q) \<noteq> 0"
  proof (cases "q = []")
    case True
    have "TextDecoder_decode [] = []"
      by (simp add: TextDecoder_decode_def)
    with True show ?thesis by simp
  next
    case False
    moreover from False have "last q \<noteq> 0"
      using trailing_run(2) [of p] unfolding q_def by blast
    ultimately show ?thesis by (rule TextDecoder_decode_last)
  qed
  ultimately show ?thesis
    unfolding q_def by (simp only: replace_trailing_nuls_id)
qed

section \<open>Claims\<close>

subsection \<open>The demultiplexer\<close>

text \<open>
  Claim C1. For an interval \<open>n > 0\<close> and two lists of non-empty chunks with the same
  bytes, each delivered and followed by the end of the stream, the \<^verbatim>\<open>try\<close> block
  returns the same value, the one that the bytes alone determine, and \<^verbatim>\<open>parseOnce\<close>
  returns the same outcome.
\<close>

theorem chunking_independent:
  assumes "0 < n" and "\<forall>c \<in> set cs. c \<noteq> []" and "\<forall>c \<in> set cs'. c \<noteq> []"
    and "concat cs = concat cs'"
  shows "try_block (stream_of cs) (Num (of_nat n)) = Some (icy_block n (concat cs)) \<and>
    try_block (stream_of cs') (Num (of_nat n)) = try_block (stream_of cs) (Num (of_nat n)) \<and>
    (hdr_icy_metaint res = Numeric (of_nat n) \<longrightarrow>
       parseOnce (res\<lparr>body := stream_of cs\<rparr>) \<noteq> None \<and>
       parseOnce (res\<lparr>body := stream_of cs'\<rparr>) = parseOnce (res\<lparr>body := stream_of cs\<rparr>))"
proof -
  have 1: "try_block (stream_of cs) (Num (of_nat n)) = Some (icy_block n (concat cs))"
    using try_block_chunks [of cs "int n" "sconst Done"] assms(1,2)
    by (simp add: stream_of_def)
  have 2: "try_block (stream_of cs') (Num (of_nat n)) = Some (icy_block n (concat cs))"
    using try_block_chunks [of cs' "int n" "sconst Done"] assms(1,3,4)
    by (simp add: stream_of_def)
  have 3: "parseOnce (res\<lparr>body := stream_of cs\<rparr>) \<noteq> None \<and>
       parseOnce (res\<lparr>body := stream_of cs'\<rparr>) = parseOnce (res\<lparr>body := stream_of cs\<rparr>)"
    if "hdr_icy_metaint res = Numeric (of_nat n)"
    using that assms(1) 1 2
    by (simp add: parseOnce_try_block [of _ "of_nat n"] make_result_def split: sum.splits)
  from 1 2 3 show ?thesis by simp
qed

text \<open>
  Nineteen bytes in one chunk and in chunks of one byte.
\<close>

theorem chunking_independent_witness:
  "try_block (stream_of [[7], [7], [1], [83], [116], [114], [101], [97], [109], [84], [105],
      [116], [108], [101], [61], [39], [89], [39], [59]]) (Num 2) =
   try_block (stream_of [[7, 7, 1, 83, 116, 114, 101, 97, 109, 84, 105, 116, 108, 101, 61, 39,
      89, 39, 59]]) (Num 2) \<and>
   parseOnce (response_of (Numeric 2) (stream_of [[7], [7], [1], [83], [116], [114], [101],
      [97], [109], [84], [105], [116], [108], [101], [61], [39], [89], [39], [59]])) =
   parseOnce (response_of (Numeric 2) (stream_of [[7, 7, 1, 83, 116, 114, 101, 97, 109, 84,
      105, 116, 108, 101, 61, 39, 89, 39, 59]]))"
proof -
  define one :: "byte list list" where
    "one = [[7, 7, 1, 83, 116, 114, 101, 97, 109, 84, 105, 116, 108, 101, 61, 39, 89, 39, 59]]"
  define many :: "byte list list" where
    "many = [[7], [7], [1], [83], [116], [114], [101], [97], [109], [84], [105],
      [116], [108], [101], [61], [39], [89], [39], [59]]"
  have "(0::nat) < 2" by simp
  moreover have "\<forall>c \<in> set one. c \<noteq> []"
    by (simp add: one_def)
  moreover have "\<forall>c \<in> set many. c \<noteq> []"
    by (simp add: many_def)
  moreover have "concat one = concat many"
    by (simp add: one_def many_def)
  moreover have "hdr_icy_metaint (response_of (Numeric 2) (stream_of one)) = Numeric (of_nat 2)"
    by (simp add: response_of_def)
  moreover have "response_of (Numeric 2) (stream_of one) \<lparr>body := stream_of many\<rparr> =
      response_of (Numeric 2) (stream_of many)"
    and "response_of (Numeric 2) (stream_of one) \<lparr>body := stream_of one\<rparr> =
      response_of (Numeric 2) (stream_of one)"
    by (simp_all add: response_of_def)
  ultimately have "try_block (stream_of many) (Num 2) = try_block (stream_of one) (Num 2) \<and>
      parseOnce (response_of (Numeric 2) (stream_of many)) =
      parseOnce (response_of (Numeric 2) (stream_of one))"
    using chunking_independent [of 2 one many "response_of (Numeric 2) (stream_of one)"]
    by simp
  then show ?thesis
    unfolding one_def many_def .
qed

text \<open>
  Claim C2. When the non-empty chunks of the stream hold the \<open>n\<close> audio bytes, the length
  byte \<open>L\<close> and at least \<open>16 * L\<close> further bytes, the raw string is decoded from exactly
  the \<open>16 * L\<close> bytes after the length byte, whatever follows. For \<open>L = 0\<close> the raw string
  is empty and the title is unset.
\<close>

theorem payload_length_exact:
  assumes "0 < n" and "\<forall>c \<in> set cs. c \<noteq> []"
    and "hdr_icy_metaint res = Numeric (of_nat n)" and "body res = map Chunk cs @- rest"
    and "n < length (concat cs)"
    and "Suc n + 16 * unat (concat cs ! n) \<le> length (concat cs)"
  shows "\<exists>r. parseOnce res =
        Some \<lparr> result = Inr r, effects = [Fetch, GetReader, Abort, ReleaseLock] \<rparr> \<and>
      raw r = replace_trailing_nuls
        (TextDecoder_decode (take (16 * unat (concat cs ! n)) (drop (Suc n) (concat cs)))) \<and>
      title r = title (parseMetadata (raw r)) \<and>
      (concat cs ! n = 0 \<longrightarrow> raw r = [] \<and> title r = None)"
proof -
  have "complete_block n (concat cs)"
    using assms(5,6) by (simp add: complete_block_def)
  then have "try_block (body res) (Num (of_nat n)) = Some (icy_block n (concat cs))"
    using try_block_chunks [of cs "int n" rest] assms(1,2,4) by simp
  then have p: "parseOnce res =
      Some \<lparr> result = Inr (make_result res (replace_trailing_nuls
          (TextDecoder_decode (take (16 * unat (concat cs ! n)) (drop (Suc n) (concat cs)))))),
        effects = [Fetch, GetReader, Abort, ReleaseLock] \<rparr>"
    using assms(1,3,5) by (simp add: parseOnce_try_block [of _ "of_nat n"] icy_block_def)
  have e: "TextDecoder_decode [] = []"
    by (simp add: TextDecoder_decode_def)
  have t: "title (parseMetadata []) = None"
    by (simp add: parseMetadata_def match_here_def StreamTitle_key_def)
  show ?thesis
    unfolding p by (rule exI, rule conjI, rule refl) (simp add: make_result_def e t)
qed

text \<open>
  Interval 2, length byte 0, and two more bytes that are not used.
\<close>

theorem payload_length_exact_witness:
  "\<exists>r. parseOnce (response_of (Numeric 2) (stream_of [[7, 7, 0, 9], [8]])) =
        Some \<lparr> result = Inr r, effects = [Fetch, GetReader, Abort, ReleaseLock] \<rparr> \<and>
      raw r = [] \<and> title r = None"
proof -
  have "(0::nat) < 2" by simp
  moreover have "\<forall>c \<in> set [[7, 7, 0, 9], [8 :: byte]]. c \<noteq> []" by simp
  moreover have "hdr_icy_metaint (response_of (Numeric 2) (stream_of [[7, 7, 0, 9], [8]])) = Numeric (of_nat 2)"
    by (simp add: response_of_def)
  moreover have "body (response_of (Numeric 2) (stream_of [[7, 7, 0, 9], [8]])) =
      map Chunk [[7, 7, 0, 9], [8]] @- sconst Done"
    by (simp add: response_of_def stream_of_def)
  moreover have "2 < length (concat [[7, 7, 0, 9], [8 :: byte]])" by simp
  moreover have "Suc 2 + 16 * unat (concat [[7, 7, 0, 9], [8 :: byte]] ! 2) \<le>
      length (concat [[7, 7, 0, 9], [8 :: byte]])" by simp
  moreover have "concat [[7, 7, 0, 9], [8 :: byte]] ! 2 = 0" by simp
  ultimately show ?thesis
    using payload_length_exact [of 2 "[[7, 7, 0, 9], [8]]" "response_of (Numeric 2) (stream_of [[7, 7, 0, 9], [8]])"
        "sconst Done"]
    by blast
qed

text \<open>
  Claim C6. When the stream ends after the length byte and before \<open>16 * L\<close> payload
  bytes have arrived, \<^verbatim>\<open>parseOnce\<close> does not fail: it returns a result whose raw string
  is decoded from the bytes that did arrive, and whose title is read from that raw string.
  In the payload loop itself, for chunks of any length: an end of the stream below
  \<open>metadataLength\<close> stops the loop with the bytes accumulated so far, and the raw string
  is decoded from all of them.
\<close>

theorem truncated_payload_tolerated:
  "(0 < n \<and> (\<forall>c \<in> set cs. c \<noteq> []) \<and> hdr_icy_metaint res = Numeric (of_nat n) \<and>
      body res = map Chunk cs @- Done ## rest \<and> n < length (concat cs) \<and>
      length (concat cs) < Suc n + 16 * unat (concat cs ! n) \<longrightarrow>
    (\<exists>r. parseOnce res =
           Some \<lparr> result = Inr r, effects = [Fetch, GetReader, Abort, ReleaseLock] \<rparr> \<and>
         raw r = replace_trailing_nuls (TextDecoder_decode (drop (Suc n) (concat cs))) \<and>
         title r = title (parseMetadata (raw r)))) \<and>
   (int (length (metadata @ concat vs)) < m \<longrightarrow>
      payload_loop (map Chunk vs @- Done ## rest) (Num (of_int m)) metadata =
        Some (rest, metadata @ concat vs) \<and>
      raw_of (metadata @ concat vs) (Num (of_int m)) =
        replace_trailing_nuls (TextDecoder_decode (metadata @ concat vs)))"
proof (intro conjI impI)
  assume a: "0 < n \<and> (\<forall>c \<in> set cs. c \<noteq> []) \<and> hdr_icy_metaint res = Numeric (of_nat n) \<and>
      body res = map Chunk cs @- Done ## rest \<and> n < length (concat cs) \<and>
      length (concat cs) < Suc n + 16 * unat (concat cs ! n)"
  then have "try_block (body res) (Num (of_nat n)) = Some (icy_block n (concat cs))"
    using try_block_chunks [of cs "int n" "Done ## rest"] by simp
  moreover have "length (concat cs) - Suc n \<le> 16 * unat (concat cs ! n)"
    using a by linarith
  then have "take (16 * unat (concat cs ! n)) (drop (Suc n) (concat cs)) = drop (Suc n) (concat cs)"
    by simp
  ultimately have p: "parseOnce res =
      Some \<lparr> result = Inr (make_result res
                (replace_trailing_nuls (TextDecoder_decode (drop (Suc n) (concat cs))))),
             effects = [Fetch, GetReader, Abort, ReleaseLock] \<rparr>"
    using a by (simp add: parseOnce_try_block [of _ "of_nat n"] icy_block_def)
  show "\<exists>r. parseOnce res =
           Some \<lparr> result = Inr r, effects = [Fetch, GetReader, Abort, ReleaseLock] \<rparr> \<and>
         raw r = replace_trailing_nuls (TextDecoder_decode (drop (Suc n) (concat cs))) \<and>
         title r = title (parseMetadata (raw r))"
    unfolding p by (rule exI, rule conjI, rule refl) (simp add: make_result_def)
next
  assume "int (length (metadata @ concat vs)) < m"
  then show "payload_loop (map Chunk vs @- Done ## rest) (Num (of_int m)) metadata =
        Some (rest, metadata @ concat vs)"
    by (rule payload_loop_end)
next
  assume a: "int (length (metadata @ concat vs)) < m"
  then have "0 \<le> m" by linarith
  with a show "raw_of (metadata @ concat vs) (Num (of_int m)) =
        replace_trailing_nuls (TextDecoder_decode (metadata @ concat vs))"
    by (simp add: raw_of_take)
qed

text \<open>
  Interval 2, length byte 1, and the three payload bytes \<^verbatim>\<open>A\<close>, \<^verbatim>\<open>B\<close> and 0 before the
  stream ends: the raw string is \<^verbatim>\<open>AB\<close>.
\<close>

theorem truncated_payload_tolerated_witness:
  "(\<exists>r. parseOnce (response_of (Numeric 2) (stream_of [[7, 7, 1, 65], [66, 0]])) =
          Some \<lparr> result = Inr r, effects = [Fetch, GetReader, Abort, ReleaseLock] \<rparr> \<and>
        raw r = [65, 66] \<and> title r = None) \<and>
   payload_loop (map Chunk [[66, 0]] @- Done ## sconst Done) (Num 16) [65] =
     Some (sconst Done, [65, 66, 0])"
proof -
  have "0 < (2::nat) \<and> (\<forall>c \<in> set [[7, 7, 1, 65], [66, 0 :: byte]]. c \<noteq> []) \<and>
      hdr_icy_metaint (response_of (Numeric 2) (stream_of [[7, 7, 1, 65], [66, 0]])) = Numeric (of_nat 2) \<and>
      body (response_of (Numeric 2) (stream_of [[7, 7, 1, 65], [66, 0]])) =
        map Chunk [[7, 7, 1, 65], [66, 0]] @- Done ## sconst Done \<and>
      2 < length (concat [[7, 7, 1, 65], [66, 0 :: byte]]) \<and>
      length (concat [[7, 7, 1, 65], [66, 0 :: byte]]) <
        Suc 2 + 16 * unat (concat [[7, 7, 1, 65], [66, 0 :: byte]] ! 2)"
    by (simp add: response_of_def stream_of_def sconst_unfold)
  moreover have "int (length ([65 :: byte] @ concat [[66, 0]])) < 16"
    by simp
  moreover have d: "replace_trailing_nuls (TextDecoder_decode [65, 66, 0]) = [65, 66]"
    by (simp add: TextDecoder_decode_def utf16_def)
  ultimately have "(\<exists>r. parseOnce (response_of (Numeric 2) (stream_of [[7, 7, 1, 65], [66, 0]])) =
          Some \<lparr> result = Inr r, effects = [Fetch, GetReader, Abort, ReleaseLock] \<rparr> \<and>
        raw r = [65, 66] \<and> title r = title (parseMetadata (raw r))) \<and>
      payload_loop (map Chunk [[66, 0]] @- Done ## sconst Done) (Num 16) [65] =
        Some (sconst Done, [65, 66, 0])"
    using truncated_payload_tolerated [of 2 "[[7, 7, 1, 65], [66, 0]]"
        "response_of (Numeric 2) (stream_of [[7, 7, 1, 65], [66, 0]])" "sconst Done"
        "[65]" "[[66, 0]]" 16]
    by simp
  then obtain r where r: "parseOnce (response_of (Numeric 2) (stream_of [[7, 7, 1, 65], [66, 0]])) =
          Some \<lparr> result = Inr r, effects = [Fetch, GetReader, Abort, ReleaseLock] \<rparr>"
      "raw r = [65, 66]" "title r = title (parseMetadata (raw r))"
    and p: "payload_loop (map Chunk [[66, 0]] @- Done ## sconst Done) (Num 16) [65] =
        Some (sconst Done, [65, 66, 0])"
    by blast
  have "title (parseMetadata [65, 66]) = None"
    by (simp add: parseMetadata_def match_here_def StreamTitle_key_def js_def quote_def)
  with r have "title r = None"
    by simp
  with r p show ?thesis
    by blast
qed

text \<open>
  Claim C7. The raw string is the decoding of the payload without its maximal run of
  trailing 0 bytes. A 0 byte before that run is in the raw string as U+0000, right after
  the decoding of the bytes in front of it. A payload that does not end in a 0 byte is
  decoded unchanged. On strings, the replacement removes the maximal run of trailing
  U+0000 and nothing else.
\<close>

theorem trailing_nuls_stripped:
  "replace_trailing_nuls (TextDecoder_decode p) =
     TextDecoder_decode (rev (dropWhile (\<lambda>b. b = 0) (rev p))) \<and>
   (\<forall>a b. rev (dropWhile (\<lambda>b. b = 0) (rev p)) = a @ 0 # b \<longrightarrow>
      (\<exists>s. replace_trailing_nuls (TextDecoder_decode p) = TextDecoder_decode a @ 0 # s)) \<and>
   (p = [] \<or> last p \<noteq> 0 \<longrightarrow> replace_trailing_nuls (TextDecoder_decode p) = TextDecoder_decode p) \<and>
   replace_trailing_nuls s = rev (dropWhile (\<lambda>c. c = 0) (rev s)) \<and>
   raw_of metadata m =
     TextDecoder_decode (rev (dropWhile (\<lambda>b. b = 0) (rev (slice metadata (Num 0) (Some m)))))"
proof (intro conjI allI impI)
  show "replace_trailing_nuls (TextDecoder_decode p) =
     TextDecoder_decode (rev (dropWhile (\<lambda>b. b = 0) (rev p)))"
    by (rule strip_after_decode)
next
  fix a b
  assume "rev (dropWhile (\<lambda>b. b = 0) (rev p)) = a @ 0 # b"
  then have "replace_trailing_nuls (TextDecoder_decode p) = TextDecoder_decode (a @ 0 # b)"
    by (simp only: strip_after_decode)
  then show "\<exists>s. replace_trailing_nuls (TextDecoder_decode p) = TextDecoder_decode a @ 0 # s"
    by (simp only: TextDecoder_decode_nul) blast
next
  assume "p = [] \<or> last p \<noteq> 0"
  then have "dropWhile (\<lambda>b. b = 0) (rev p) = rev p"
    by (cases "p = []") (simp_all add: dropWhile_eq_self_iff hd_rev)
  then show "replace_trailing_nuls (TextDecoder_decode p) = TextDecoder_decode p"
    by (simp add: strip_after_decode)
next
  show "replace_trailing_nuls s = rev (dropWhile (\<lambda>c. c = 0) (rev s))"
    by (rule replace_trailing_nuls_eq)
next
  show "raw_of metadata m =
     TextDecoder_decode (rev (dropWhile (\<lambda>b. b = 0) (rev (slice metadata (Num 0) (Some m)))))"
    by (simp only: raw_of_def strip_after_decode)
qed

text \<open>
  The payload \<^verbatim>\<open>A\0B\0\0\<close>.
\<close>

theorem trailing_nuls_stripped_witness:
  "replace_trailing_nuls (TextDecoder_decode [65, 0, 66, 0, 0]) = TextDecoder_decode [65, 0, 66] \<and>
   (\<exists>s. replace_trailing_nuls (TextDecoder_decode [65, 0, 66, 0, 0]) = TextDecoder_decode [65] @ 0 # s) \<and>
   replace_trailing_nuls (TextDecoder_decode [65, 0, 66]) = TextDecoder_decode [65, 0, 66]"
proof -
  have "rev (dropWhile (\<lambda>b. b = 0) (rev [65, 0, 66, 0, 0 :: byte])) = [65] @ 0 # [66]"
    by simp
  moreover have "[65, 0, 66 :: byte] = [] \<or> last [65, 0, 66 :: byte] \<noteq> 0"
    by simp
  ultimately show ?thesis
    using trailing_nuls_stripped [of "[65, 0, 66, 0, 0]"] trailing_nuls_stripped [of "[65, 0, 66]"]
    by (metis append_Cons append_Nil)
qed

subsection \<open>The decoder\<close>

text \<open>
  Claim C8. The decoder returns a record for every string. On the three example strings
  the title is \<^verbatim>\<open>Artist - Song\<close>, unset, and the empty string. In general the title is
  \<open>t\<close> exactly when the string is \<open>pre\<close>, \<^verbatim>\<open>StreamTitle='\<close>, \<open>t\<close>, a quote and a rest,
  where \<open>t\<close> has no quote and \<^verbatim>\<open>StreamTitle='\<close> does not start inside \<open>pre\<close>: the text
  between the first pair of quotes after the first \<^verbatim>\<open>StreamTitle=\<close>. Other keys before or
  after it do not matter.
\<close>

theorem parseMetadata_title:
  "title (parseMetadata (js ''StreamTitle='' @ [quote] @ js ''Artist - Song'' @ [quote] @ js '';'')) =
     Some (js ''Artist - Song'') \<and>
   title (parseMetadata (js '''')) = None \<and>
   title (parseMetadata (js ''StreamTitle='' @ [quote, quote] @ js '';'')) = Some (js '''') \<and>
   (title (parseMetadata s) = Some t \<longleftrightarrow>
      (\<exists>pre post. s = pre @ StreamTitle_key @ t @ quote # post \<and> quote \<notin> set t \<and>
         (\<forall>j<length pre. \<not> prefix StreamTitle_key (drop j s))))"
proof -
  have "title (parseMetadata (js ''StreamTitle='' @ [quote] @ js ''Artist - Song'' @ [quote] @ js '';'')) =
     Some (js ''Artist - Song'')"
    by (simp add: parseMetadata_def match_here_def StreamTitle_key_def js_def quote_def)
  moreover have "title (parseMetadata (js '''')) = None"
    by (simp add: parseMetadata_def match_here_def StreamTitle_key_def js_def quote_def)
  moreover have "title (parseMetadata (js ''StreamTitle='' @ [quote, quote] @ js '';'')) = Some (js '''')"
    by (simp add: parseMetadata_def match_here_def StreamTitle_key_def js_def quote_def)
  moreover have "title (parseMetadata s) = exec_group1 s"
    by (simp add: parseMetadata_def)
  ultimately show ?thesis
    by (simp only: exec_group1_Some)
qed

text \<open>
  The characterisation at a string with another key on each side of the title.
\<close>

theorem parseMetadata_title_witness:
  "title (parseMetadata (js ''a;'' @ StreamTitle_key @ js ''T'' @ quote # js '';b='' @ [quote, quote])) =
     Some (js ''T'')"
proof -
  have "\<exists>pre post.
      js ''a;'' @ StreamTitle_key @ js ''T'' @ quote # js '';b='' @ [quote, quote] =
        pre @ StreamTitle_key @ js ''T'' @ quote # post \<and>
      quote \<notin> set (js ''T'') \<and>
      (\<forall>j<length pre. \<not> prefix StreamTitle_key
         (drop j (js ''a;'' @ StreamTitle_key @ js ''T'' @ quote # js '';b='' @ [quote, quote])))"
    by (intro exI [of _ "js ''a;''"] exI [of _ "js '';b='' @ [quote, quote]"])
      (simp add: js_def quote_def StreamTitle_key_def less_Suc_eq)
  then show ?thesis
    using parseMetadata_title [of "js ''a;'' @ StreamTitle_key @ js ''T'' @ quote # js '';b='' @ [quote, quote]" "js ''T''"]
    by blast
qed

subsection \<open>Termination\<close>

text \<open>
  Claim C10 as stated fails for an interval of \<^verbatim>\<open>Infinity\<close>. The header text
  \<^verbatim>\<open>"Infinity"\<close> passes the check \<^verbatim>\<open>!metaint\<close>, and \<^verbatim>\<open>received < metaint\<close> then holds
  for ever: on a reader that delivers the non-empty chunk \<^verbatim>\<open>[1]\<close> again and again, the
  audio loop and \<^verbatim>\<open>parseOnce\<close> never return.
\<close>

theorem infinite_interval_never_returns:
  "sset (sconst (Chunk [1])) = {Chunk [1]} \<and>
   audio_loop (sconst (Chunk [1])) PosInf 0 [] = None \<and>
   parseOnce (response_of PlusInfinity (sconst (Chunk [1]))) = None"
  by (simp add: audio_diverges_infinite infinite_diverges_parseOnce)

text \<open>
  Claim C10, amended. When no read of the reader delivers an empty chunk and the interval
  is not \<^verbatim>\<open>Infinity\<close>, the audio loop returns from every state; the payload loop returns
  from every state with a bound other than \<^verbatim>\<open>Infinity\<close>, and the bound that
  \<^verbatim>\<open>parseOnce\<close> gives it, a length byte times 16, never is \<^verbatim>\<open>Infinity\<close>; so
  \<^verbatim>\<open>parseOnce\<close> returns. A reader that delivers empty chunks for ever makes the audio
  loop run for ever, and after a length byte of 1 the payload loop as well.
\<close>

theorem pull_loops_terminate:
  "((\<forall>r \<in> sset rd. r \<noteq> Chunk []) \<and> n \<noteq> PosInf \<longrightarrow>
      (\<exists>y. audio_loop rd n received leftover = Some y)) \<and>
   ((\<forall>r \<in> sset rd. r \<noteq> Chunk []) \<and> m \<noteq> PosInf \<longrightarrow>
      (\<exists>y. payload_loop rd m metadata = Some y)) \<and>
   times16 x \<noteq> PosInf \<and>
   ((\<forall>r \<in> sset (body res). r \<noteq> Chunk []) \<and> hdr_icy_metaint res \<noteq> PlusInfinity \<longrightarrow>
      (\<exists>out. parseOnce res = Some out)) \<and>
   audio_loop (sconst (Chunk [])) (Num 1) 0 [] = None \<and>
   payload_loop (sconst (Chunk [])) (Num 16) [] = None \<and>
   parseOnce (response_of (Numeric 1) (sconst (Chunk []))) = None \<and>
   parseOnce (response_of (Numeric 1) (Chunk [65, 1] ## sconst (Chunk []))) = None"
proof (intro conjI impI)
  assume "(\<forall>r \<in> sset rd. r \<noteq> Chunk []) \<and> n \<noteq> PosInf"
  then show "\<exists>y. audio_loop rd n received leftover = Some y"
    using audio_loop_terminates by blast
next
  assume "(\<forall>r \<in> sset rd. r \<noteq> Chunk []) \<and> m \<noteq> PosInf"
  then show "\<exists>y. payload_loop rd m metadata = Some y"
    using payload_loop_terminates by blast
next
  assume "(\<forall>r \<in> sset (body res). r \<noteq> Chunk []) \<and> hdr_icy_metaint res \<noteq> PlusInfinity"
  then show "\<exists>out. parseOnce res = Some out"
    using parseOnce_terminates by blast
qed (rule times16_finite audio_diverges payload_diverges audio_diverges_parseOnce
    payload_diverges_parseOnce)+

text \<open>
  Termination on the reader that delivers one chunk of two bytes and then ends, and on
  the reader that delivers the chunk \<^verbatim>\<open>[1]\<close> for ever, with the fractional interval 3/2.
\<close>

theorem pull_loops_terminate_witness:
  "(\<exists>y. audio_loop (stream_of [[65, 1]]) (Num 1) 0 [] = Some y) \<and>
   (\<exists>y. payload_loop (stream_of [[65, 1]]) (Num 16) [] = Some y) \<and>
   (\<exists>out. parseOnce (response_of (Numeric 1) (stream_of [[65, 1]])) = Some out) \<and>
   (\<exists>out. parseOnce (response_of (Numeric (3 / 2)) (sconst (Chunk [1]))) = Some out)"
proof -
  have h1: "(\<forall>r \<in> sset (stream_of [[65, 1]]). r \<noteq> Chunk []) \<and> Num 1 \<noteq> PosInf"
    by (simp add: stream_of_def)
  have h2: "(\<forall>r \<in> sset (stream_of [[65, 1]]). r \<noteq> Chunk []) \<and> Num 16 \<noteq> PosInf"
    by (simp add: stream_of_def)
  have h3: "(\<forall>r \<in> sset (body (response_of (Numeric 1) (stream_of [[65, 1]]))). r \<noteq> Chunk []) \<and>
      hdr_icy_metaint (response_of (Numeric 1) (stream_of [[65, 1]])) \<noteq> PlusInfinity"
    by (simp add: stream_of_def response_of_def)
  have h4: "(\<forall>r \<in> sset (body (response_of (Numeric (3 / 2)) (sconst (Chunk [1])))). r \<noteq> Chunk []) \<and>
      hdr_icy_metaint (response_of (Numeric (3 / 2)) (sconst (Chunk [1]))) \<noteq> PlusInfinity"
    by (simp add: response_of_def)
  show ?thesis
    using h1 h2 h3
      pull_loops_terminate [of "stream_of [[65, 1]]" "Num 1" 0 "[]" "Num 16" "[]" None
        "response_of (Numeric 1) (stream_of [[65, 1]])"]
      h4 pull_loops_terminate [of "stream_of [[65, 1]]" "Num 1" 0 "[]" "Num 16" "[]" None
        "response_of (Numeric (3 / 2)) (sconst (Chunk [1]))"]
    by simp
qed

subsection \<open>Errors and cleanup\<close>

text \<open>
  Claim C3 as stated fails for an empty chunk. With an interval of 1, the first read
  delivers an empty chunk while no byte has been consumed; the loop reads on, and the call
  returns the (empty) metadata of the second chunk instead of failing.
\<close>

theorem empty_chunk_is_not_end_of_stream:
  "shd (stream_of [[], [65, 0]]) = Chunk [] \<and>
   parseOnce (response_of (Numeric 1) (stream_of [[], [65, 0]])) =
     Some \<lparr> result = Inr \<lparr> title = None, raw = [], name = None, genre = None, url = None,
                            bitrate = Num 0, contentType = None, server = None \<rparr>,
            effects = [Fetch, GetReader, Abort, ReleaseLock] \<rparr>"
  by (simp add: eval_defs)

text \<open>
  Claim C3, amended. When the reader signals the end of the stream while the consumed
  byte count is below the interval, \<^verbatim>\<open>parseOnce\<close> fails with \<open>StreamEndedEarly\<close>, after
  any chunks, empty ones included. An empty chunk is not such a signal: below the interval
  the loop adds 0 to the count and continues with the next read.
\<close>

theorem end_of_stream_before_boundary:
  "(hdr_icy_metaint res = Numeric q \<and> body res = map Chunk cs @- Done ## rest \<and>
      of_nat (length (concat cs)) < q \<longrightarrow>
    parseOnce res =
      Some \<lparr> result = Inl StreamEndedEarly, effects = [Fetch, GetReader, Abort, ReleaseLock] \<rparr>) \<and>
   (js_less (Num (of_int received)) n \<longrightarrow>
    audio_loop (Chunk [] ## rd) n received leftover = audio_loop rd n received [])"
proof (intro conjI impI)
  assume a: "hdr_icy_metaint res = Numeric q \<and> body res = map Chunk cs @- Done ## rest \<and>
      of_nat (length (concat cs)) < q"
  have "(0 :: rat) \<le> of_nat (length (concat cs))" by simp
  with a have "q \<noteq> 0" by linarith
  moreover from a have "try_block (body res) (Num q) = Some (Inl StreamEndedEarly)"
    using audio_loop_short [of 0 cs "Num q" rest "[]"] by (simp add: try_block_def)
  ultimately show "parseOnce res =
      Some \<lparr> result = Inl StreamEndedEarly, effects = [Fetch, GetReader, Abort, ReleaseLock] \<rparr>"
    using a by (simp add: parseOnce_try_block [of _ q])
next
  assume "js_less (Num (of_int received)) n"
  then show "audio_loop (Chunk [] ## rd) n received leftover = audio_loop rd n received []"
    by (subst audio_loop.simps) simp
qed

text \<open>
  Three bytes in three chunks and then the end of the stream, for an interval of 5; and an
  empty chunk in front of a reader.
\<close>

theorem end_of_stream_before_boundary_witness:
  "parseOnce (response_of (Numeric 5) (stream_of [[1, 2], [], [3]])) =
      Some \<lparr> result = Inl StreamEndedEarly, effects = [Fetch, GetReader, Abort, ReleaseLock] \<rparr> \<and>
   audio_loop (Chunk [] ## stream_of [[1]]) (Num 5) 0 [7] = audio_loop (stream_of [[1]]) (Num 5) 0 []"
proof -
  have "hdr_icy_metaint (response_of (Numeric 5) (stream_of [[1, 2], [], [3]])) = Numeric 5 \<and>
     body (response_of (Numeric 5) (stream_of [[1, 2], [], [3]])) =
       map Chunk [[1, 2], [], [3]] @- Done ## sconst Done \<and>
     (of_nat (length (concat [[1, 2], [], [3 :: byte]])) :: rat) < 5"
    by (simp add: response_of_def stream_of_def sconst_unfold)
  moreover have "js_less (Num (of_int 0)) (Num 5)" by simp
  ultimately show ?thesis
    using end_of_stream_before_boundary [of "response_of (Numeric 5) (stream_of [[1, 2], [], [3]])"
        5 "[[1, 2], [], [3]]" "sconst Done" 0 "Num 5" "stream_of [[1]]" "[7]"]
    by blast
qed

text \<open>
  Claim C4 as stated fails for an empty chunk. With an interval of 1 the audio loop exits
  on the boundary after the first chunk; the next read delivers an empty chunk, and the call
  returns an empty raw string instead of failing with \<open>MetadataReadFailed\<close>.
\<close>

theorem empty_chunk_at_boundary_is_no_error:
  "audio_loop (stream_of [[65], []]) (Num 1) 0 [] = Some (stream_of [[]], Inr (1, [65])) \<and>
   parseOnce (response_of (Numeric 1) (stream_of [[65], []])) =
     Some \<lparr> result = Inr \<lparr> title = None, raw = [], name = None, genre = None, url = None,
                            bitrate = Num 0, contentType = None, server = None \<rparr>,
            effects = [Fetch, GetReader, Abort, ReleaseLock] \<rparr>"
  by (simp add: eval_defs)

text \<open>
  Claim C4, amended. When the audio loop exits with \<open>received = metaint\<close>, exactly one
  further read is made for the start of the metadata. If that read is the end-of-stream
  signal, the extraction fails with \<open>MetadataReadFailed\<close>; if it delivers a chunk, that
  chunk is the start of the metadata and no error is raised at this step.
\<close>

theorem read_at_boundary:
  assumes "audio_loop rd (Num (of_int n)) 0 [] = Some (rd1, Inr (n, leftover))"
  shows "fst (meta_start rd1 (Num (of_int n)) n leftover) = stl rd1 \<and>
    (shd rd1 = Done \<longrightarrow>
       try_block rd (Num (of_int n)) = Some (Inl MetadataReadFailed) \<and>
       (hdr_icy_metaint res = Numeric (of_int n) \<and> n \<noteq> 0 \<and> body res = rd \<longrightarrow>
          parseOnce res = Some \<lparr> result = Inl MetadataReadFailed,
                                  effects = [Fetch, GetReader, Abort, ReleaseLock] \<rparr>)) \<and>
    (\<forall>v. shd rd1 = Chunk v \<longrightarrow> snd (meta_start rd1 (Num (of_int n)) n leftover) = Inr v)"
proof -
  have 1: "fst (meta_start rd1 (Num (of_int n)) n leftover) = stl rd1"
    by (simp add: meta_start_int split: read_result.splits)
  have 2: "try_block rd (Num (of_int n)) = Some (Inl MetadataReadFailed)" if "shd rd1 = Done"
    using assms that by (simp add: try_block_def after_boundary_def meta_start_int)
  have 3: "snd (meta_start rd1 (Num (of_int n)) n leftover) = Inr v" if "shd rd1 = Chunk v" for v
    using that by (simp add: meta_start_int)
  have 4: "parseOnce res = Some \<lparr> result = Inl MetadataReadFailed,
                                  effects = [Fetch, GetReader, Abort, ReleaseLock] \<rparr>"
    if "shd rd1 = Done" "hdr_icy_metaint res = Numeric (of_int n) \<and> n \<noteq> 0 \<and> body res = rd"
    using that 2 by (simp add: parseOnce_try_block [of _ "of_int n"])
  from 1 2 3 4 show ?thesis
    by blast
qed

text \<open>
  One chunk of one byte and then the end of the stream, for an interval of 1.
\<close>

theorem read_at_boundary_witness:
  "fst (meta_start (sconst Done) (Num 1) 1 [65]) = stl (sconst Done) \<and>
   try_block (stream_of [[65]]) (Num 1) = Some (Inl MetadataReadFailed) \<and>
   parseOnce (response_of (Numeric 1) (stream_of [[65]])) =
     Some \<lparr> result = Inl MetadataReadFailed, effects = [Fetch, GetReader, Abort, ReleaseLock] \<rparr>"
proof -
  have h: "audio_loop (stream_of [[65]]) (Num (of_int 1)) 0 [] = Some (sconst Done, Inr (1, [65]))"
    by (simp add: stream_of_def audio_loop.simps)
  have "shd (sconst Done) = Done"
    by simp
  moreover have "hdr_icy_metaint (response_of (Numeric 1) (stream_of [[65]])) = Numeric (of_int 1) \<and>
     (1::int) \<noteq> 0 \<and> body (response_of (Numeric 1) (stream_of [[65]])) = stream_of [[65]]"
    by (simp add: response_of_def)
  ultimately show ?thesis
    using read_at_boundary [OF h, of "response_of (Numeric 1) (stream_of [[65]])"] by simp
qed

text \<open>
  Claim C5 as stated fails for a negative header value: \<^verbatim>\<open>!metaint\<close> is false for -5, so
  the reader is opened and the call returns a result.
\<close>

theorem negative_metaint_proceeds:
  "parseOnce (response_of (Numeric (- 5)) (stream_of [[1, 2, 3]])) =
     Some \<lparr> result = Inr \<lparr> title = None, raw = [], name = None, genre = None, url = None,
                            bitrate = Num 0, contentType = None, server = None \<rparr>,
            effects = [Fetch, GetReader, Abort, ReleaseLock] \<rparr>"
  by (simp add: eval_defs)

text \<open>
  Claim C5, amended. \<^verbatim>\<open>parseOnce\<close> fails with \<open>UnsupportedStream\<close>, before the reader
  is obtained, when the \<^verbatim>\<open>icy-metaint\<close> header is missing, zero or not a number. For
  every other integer value, positive or negative, it proceeds: its result is that of the
  \<^verbatim>\<open>try\<close> block on the body, which is never \<open>UnsupportedStream\<close>. The same holds for
  every other finite value and for the two infinities.
\<close>

theorem unsupported_stream_check:
  "(hdr_icy_metaint res \<in> {Absent, Numeric 0, NotNumeric} \<longrightarrow>
      parseOnce res = Some \<lparr> result = Inl UnsupportedStream, effects = [Fetch] \<rparr>) \<and>
   (hdr_icy_metaint res = Numeric n \<and> n \<noteq> 0 \<longrightarrow>
      map_option result (parseOnce res) =
        map_option (map_sum id (make_result res)) (try_block (body res) (Num n)) \<and>
      (\<forall>out. parseOnce res = Some out \<longrightarrow>
         result out \<noteq> Inl UnsupportedStream \<and> GetReader \<in> set (effects out))) \<and>
   (hdr_icy_metaint res \<in> {PlusInfinity, MinusInfinity} \<longrightarrow>
      map_option result (parseOnce res) =
        map_option (map_sum id (make_result res))
          (try_block (body res) (Number (hdr_icy_metaint res))) \<and>
      (\<forall>out. parseOnce res = Some out \<longrightarrow>
         result out \<noteq> Inl UnsupportedStream \<and> GetReader \<in> set (effects out)))"
proof -
  have proceeds: "map_option result (parseOnce res) =
        map_option (map_sum id (make_result res))
          (try_block (body res) (Number (hdr_icy_metaint res))) \<and>
      (\<forall>out. parseOnce res = Some out \<longrightarrow>
         result out \<noteq> Inl UnsupportedStream \<and> GetReader \<in> set (effects out))"
    if "\<not> falsy (Number (hdr_icy_metaint res))"
    using that try_block_error [of "body res" "Number (hdr_icy_metaint res)"]
    by (auto simp: parseOnce_def Let_def split: option.splits sum.splits)
  have 1: "parseOnce res = Some \<lparr> result = Inl UnsupportedStream, effects = [Fetch] \<rparr>"
    if "hdr_icy_metaint res \<in> {Absent, Numeric 0, NotNumeric}"
    using that by (auto simp: parseOnce_def)
  have 2: "map_option result (parseOnce res) =
        map_option (map_sum id (make_result res)) (try_block (body res) (Num n)) \<and>
      (\<forall>out. parseOnce res = Some out \<longrightarrow>
         result out \<noteq> Inl UnsupportedStream \<and> GetReader \<in> set (effects out))"
    if "hdr_icy_metaint res = Numeric n \<and> n \<noteq> 0"
    using that proceeds by simp
  have 3: "map_option result (parseOnce res) =
        map_option (map_sum id (make_result res))
          (try_block (body res) (Number (hdr_icy_metaint res))) \<and>
      (\<forall>out. parseOnce res = Some out \<longrightarrow>
         result out \<noteq> Inl UnsupportedStream \<and> GetReader \<in> set (effects out))"
    if "hdr_icy_metaint res \<in> {PlusInfinity, MinusInfinity}"
    using that by (intro proceeds) auto
  from 1 2 3 show ?thesis
    by blast
qed

text \<open>
  A response without the header, one with the header value 2, and one with the header
  value \<^verbatim>\<open>-Infinity\<close>.
\<close>

theorem unsupported_stream_check_witness:
  "parseOnce (response_of Absent (stream_of [[1, 2, 3]])) =
     Some \<lparr> result = Inl UnsupportedStream, effects = [Fetch] \<rparr> \<and>
   map_option result (parseOnce (response_of (Numeric 2) (stream_of [[1, 2, 3]]))) =
     map_option (map_sum id (make_result (response_of (Numeric 2) (stream_of [[1, 2, 3]]))))
       (try_block (stream_of [[1, 2, 3]]) (Num 2)) \<and>
   result (the (parseOnce (response_of (Numeric 2) (stream_of [[1, 2, 3]])))) \<noteq>
     Inl UnsupportedStream \<and>
   GetReader \<in> set (effects (the (parseOnce (response_of (Numeric 2) (stream_of [[1, 2, 3]]))))) \<and>
   map_option result (parseOnce (response_of MinusInfinity (stream_of [[1, 2, 3]]))) =
     map_option (map_sum id (make_result (response_of MinusInfinity (stream_of [[1, 2, 3]]))))
       (try_block (stream_of [[1, 2, 3]]) NegInf)"
proof -
  have "parseOnce (response_of (Numeric 2) (stream_of [[1, 2, 3]])) =
     Some \<lparr> result = Inr \<lparr> title = None, raw = [], name = None, genre = None, url = None,
                            bitrate = Num 0, contentType = None, server = None \<rparr>,
            effects = [Fetch, GetReader, Abort, ReleaseLock] \<rparr>"
    by (simp add: eval_defs)
  moreover
  have "hdr_icy_metaint (response_of Absent (stream_of [[1, 2, 3]])) \<in> {Absent, Numeric 0, NotNumeric}"
    by (simp add: response_of_def)
  moreover have "hdr_icy_metaint (response_of (Numeric 2) (stream_of [[1, 2, 3]])) = Numeric 2 \<and> (2::rat) \<noteq> 0"
    by (simp add: response_of_def)
  moreover have "body (response_of (Numeric 2) (stream_of [[1, 2, 3]])) = stream_of [[1, 2, 3]]"
    by (simp add: response_of_def)
  moreover have "hdr_icy_metaint (response_of MinusInfinity (stream_of [[1, 2, 3]])) \<in>
      {PlusInfinity, MinusInfinity}"
    and "hdr_icy_metaint (response_of MinusInfinity (stream_of [[1, 2, 3]])) = MinusInfinity"
    and "body (response_of MinusInfinity (stream_of [[1, 2, 3]])) = stream_of [[1, 2, 3]]"
    by (simp_all add: response_of_def)
  ultimately show ?thesis
    using unsupported_stream_check [of "response_of Absent (stream_of [[1, 2, 3]])" 0]
      unsupported_stream_check [of "response_of (Numeric 2) (stream_of [[1, 2, 3]])" 2]
      unsupported_stream_check [of "response_of MinusInfinity (stream_of [[1, 2, 3]])" 0]
    by simp
qed

text \<open>
  Claim C9. On the \<open>UnsupportedStream\<close> exit the connection has been opened by
  \<^verbatim>\<open>fetch\<close>, but \<^verbatim>\<open>controller.abort()\<close> is not called: the \<^verbatim>\<open>throw\<close> is before the
  \<^verbatim>\<open>try\<close> whose \<^verbatim>\<open>finally\<close> block aborts. The exit with \<open>StreamEndedEarly\<close>, from
  inside the \<^verbatim>\<open>try\<close>, aborts once.
\<close>

theorem unsupported_stream_skips_cleanup:
  "map_option effects (parseOnce (response_of Absent (stream_of [[1, 2, 3]]))) = Some [Fetch] \<and>
   map_option result (parseOnce (response_of Absent (stream_of [[1, 2, 3]]))) =
     Some (Inl UnsupportedStream) \<and>
   map_option (\<lambda>out. count_list (effects out) Abort)
     (parseOnce (response_of Absent (stream_of [[1, 2, 3]]))) = Some 0 \<and>
   map_option (\<lambda>out. count_list (effects out) Abort)
     (parseOnce (response_of (Numeric 5) (stream_of [[1, 2, 3]]))) = Some 1"
  by (simp add: eval_defs)

end
